theory Spec2Isabelle
  imports Complex_Main "HOL-Library.Multiset"
begin

section \<open>topic\_index: a shallow embedding of \<^verbatim>\<open>topic_index.c\<close>\<close>

text \<open>
  The program reads a byte stream, splits it into lower-cased alphanumeric words, keeps for
  every distinct word a \<^verbatim>\<open>WordEntry\<close> in a chained hash table, and prints a table with the
  topic word and the four most frequent other words that are not stop words.

  Conventions of the model.
  \<^item> A C string is a \<open>string\<close> (a list of bytes) without the terminating NUL; the words the
    program stores contain alphanumeric bytes only, and an argument of \<^verbatim>\<open>main\<close> cannot hold a NUL.
  \<^item> \<^verbatim>\<open>isalnum\<close> and \<^verbatim>\<open>tolower\<close> are those of the "C" locale (the program never calls
    \<^verbatim>\<open>setlocale\<close>).
  \<^item> The counters of type \<^verbatim>\<open>long\<close> are \<open>int\<close>. Lemma \<open>index_stream_bounded\<close> below shows that no
    counter exceeds the number of bytes read, so no counter overflows on an input shorter than
    \<^verbatim>\<open>LONG_MAX\<close> bytes. \<^verbatim>\<open>size_t\<close> values are \<open>nat\<close>.
  \<^item> \<^verbatim>\<open>unsigned long\<close> is 64 bits wide; the wrap-around of the hash is written out. The hash
    decides only in which bucket an entry sits, and so in which order the entries reach
    \<^verbatim>\<open>qsort\<close>.
  \<^item> A \<^verbatim>\<open>WordEntry *\<close> is modelled by the entry it points to and a bucket chain by a list.
    The table never holds two entries with the same word (lemma \<open>index_stream_table_ok\<close>), so
    the pointer comparison \<^verbatim>\<open>e == topic_entry\<close> agrees with the comparison of the entries.
  \<^item> Every call of \<^verbatim>\<open>malloc\<close>, \<^verbatim>\<open>realloc\<close> and \<^verbatim>\<open>strdup\<close> asks the environment whether it
    succeeds: \<open>malloc_ok env k\<close> tells whether the \<open>k\<close>-th request of the run is granted.
  \<^item> \<^verbatim>\<open>qsort\<close> is a parameter of the model (field \<open>qsort\<close> of the environment): the C standard
    leaves the order of elements that compare equal open. \<open>qsort_contract\<close> states what the
    standard promises; \<open>insertion_qsort\<close> is one implementation that meets it.
  \<^item> The two percentages of a report line are computed in exact arithmetic (\<open>real\<close>), not in
    \<^verbatim>\<open>double\<close>, and a line is kept as its fields, not as formatted text. The messages on the
    error stream are not modelled: a run that fails ends with the error as its value.
  \<^item> \<open>tokens\<close> gives the words of a text as the specification defines them; lemma
    \<open>index_stream_tokens\<close> shows that the table holds exactly these words and that
    \<open>total_words\<close> is their number.
\<close>

subsection \<open>Constants and data\<close>

definition INITIAL_BUF_SIZE :: nat where
  "INITIAL_BUF_SIZE = 64"

definition HASH_SIZE :: nat where
  "HASH_SIZE = 10007"

definition STOP_WORDS :: "string list" where
  "STOP_WORDS =
    [''a'', ''an'', ''and'', ''are'', ''as'', ''at'', ''be'', ''by'', ''for'', ''from'', ''has'', ''he'', ''in'',
     ''is'', ''it'', ''its'', ''of'', ''on'', ''that'', ''the'', ''to'', ''was'', ''were'', ''will'', ''with'',
     ''I'', ''you'', ''me'', ''my'', ''we'', ''our'', ''they'', ''their'', ''them'', ''this'', ''those'',
     ''these'', ''your'', ''yours'', ''his'', ''her'', ''hers'', ''him'', ''she'', ''who'', ''whom'',
     ''what'', ''which'', ''when'', ''where'', ''why'', ''how'', ''if'', ''or'', ''but'', ''not'']"

record WordEntry =
  word :: string
  count_e :: int
  sentence_count :: int
  last_sentence_id :: int

type_synonym table = "nat \<Rightarrow> WordEntry list"

datatype error = UsageError | FopenFailed | OutOfMemory

subsection \<open>Character classes of the "C" locale\<close>

definition isalnum :: "char \<Rightarrow> bool" where
  "isalnum c =
     (let n = (of_char c :: nat)
      in (48 \<le> n \<and> n \<le> 57) \<or> (65 \<le> n \<and> n \<le> 90) \<or> (97 \<le> n \<and> n \<le> 122))"

definition tolower :: "char \<Rightarrow> char" where
  "tolower c =
     (let n = (of_char c :: nat)
      in if 65 \<le> n \<and> n \<le> 90 then char_of (n + 32) else c)"

subsection \<open>\<^verbatim>\<open>hash_word\<close>, \<^verbatim>\<open>is_stop_word\<close>\<close>

fun hash_loop :: "nat \<Rightarrow> string \<Rightarrow> nat" where
  "hash_loop h [] = h"
| "hash_loop h (c # s) =
     hash_loop ((((h * 2 ^ 5) mod 2 ^ 64 + h) mod 2 ^ 64 + of_char c) mod 2 ^ 64) s"

definition hash_word :: "string \<Rightarrow> nat" where
  "hash_word s = hash_loop 5381 s mod HASH_SIZE"

definition is_stop_word :: "string \<Rightarrow> bool" where
  "is_stop_word w = (w \<in> set STOP_WORDS)"

subsection \<open>\<^verbatim>\<open>get_word_entry\<close>\<close>

text \<open>The state of a run: the global hash table, the local variables of \<^verbatim>\<open>main\<close> that the
  reading loop changes, and the number of allocation requests made so far.\<close>

record state =
  hash_table :: table
  buf :: string
  buf_cap :: nat
  total_words :: int
  total_sentences :: int
  current_sentence_id :: int
  nalloc :: nat

text \<open>Lines 108 to 114: the update of the counters of the entry found or created.\<close>

definition update_counts :: "int \<Rightarrow> WordEntry \<Rightarrow> WordEntry" where
  "update_counts current_sentence e =
     (let e1 = e\<lparr>count_e := count_e e + 1\<rparr>
      in if last_sentence_id e1 \<noteq> current_sentence
         then e1\<lparr>sentence_count := sentence_count e1 + 1, last_sentence_id := current_sentence\<rparr>
         else e1)"

text \<open>The chain after the counters of its first entry for \<open>w\<close> were updated in place.\<close>

fun update_chain :: "string \<Rightarrow> int \<Rightarrow> WordEntry list \<Rightarrow> WordEntry list" where
  "update_chain w current_sentence [] = []"
| "update_chain w current_sentence (e # es) =
     (if word e = w then update_counts current_sentence e # es
      else e # update_chain w current_sentence es)"

definition get_word_entry :: "(nat \<Rightarrow> bool) \<Rightarrow> string \<Rightarrow> int \<Rightarrow> state \<Rightarrow> error + state" where
  "get_word_entry mem w current_sentence s =
     (let h = hash_word w; chain = hash_table s h
      in case find (\<lambda>e. word e = w) chain of
           Some e \<Rightarrow> Inr (s\<lparr>hash_table := (hash_table s)(h := update_chain w current_sentence chain)\<rparr>)
         | None \<Rightarrow>
             if \<not> mem (nalloc s) then Inl OutOfMemory
             else if \<not> mem (nalloc s + 1) then Inl OutOfMemory
             else Inr (s\<lparr>hash_table := (hash_table s)
                          (h := update_counts current_sentence
                                  \<lparr>word = w, count_e = 0, sentence_count = 0, last_sentence_id = - 1\<rparr>
                                # chain),
                        nalloc := nalloc s + 2\<rparr>))"

subsection \<open>The reading loop of \<^verbatim>\<open>main\<close>\<close>

text \<open>Lines 208 to 214 and 224 to 230: a pending word is recorded and the buffer emptied.\<close>

definition flush_word :: "(nat \<Rightarrow> bool) \<Rightarrow> state \<Rightarrow> error + state" where
  "flush_word mem s =
     (if length (buf s) > 0
      then case get_word_entry mem (buf s) (current_sentence_id s) s of
             Inl err \<Rightarrow> Inl err
           | Inr s1 \<Rightarrow> Inr (s1\<lparr>total_words := total_words s1 + 1, buf := []\<rparr>)
      else Inr s)"

definition is_terminator :: "char \<Rightarrow> bool" where
  "is_terminator c = (c = CHR ''.'' \<or> c = CHR ''!'' \<or> c = CHR ''?'')"

text \<open>Lines 190 to 221: the body of the loop for one byte \<open>c\<close>.\<close>

definition read_char :: "(nat \<Rightarrow> bool) \<Rightarrow> char \<Rightarrow> state \<Rightarrow> error + state" where
  "read_char mem c s =
     (if isalnum c
      then case (if length (buf s) + 1 \<ge> buf_cap s
                 then if mem (nalloc s)
                      then Inr (s\<lparr>buf_cap := buf_cap s * 2, nalloc := nalloc s + 1\<rparr>)
                      else Inl OutOfMemory
                 else Inr s) of
             Inl err \<Rightarrow> Inl err
           | Inr s1 \<Rightarrow> Inr (s1\<lparr>buf := buf s1 @ [tolower c]\<rparr>)
      else case flush_word mem s of
             Inl err \<Rightarrow> Inl err
           | Inr s1 \<Rightarrow>
               Inr (if is_terminator c
                    then s1\<lparr>total_sentences := total_sentences s1 + 1,
                            current_sentence_id := total_sentences s1 + 1\<rparr>
                    else s1))"

fun read_loop :: "(nat \<Rightarrow> bool) \<Rightarrow> string \<Rightarrow> state \<Rightarrow> error + state" where
  "read_loop mem [] s = Inr s"
| "read_loop mem (c # cs) s =
     (case read_char mem c s of Inl err \<Rightarrow> Inl err | Inr s1 \<Rightarrow> read_loop mem cs s1)"

text \<open>Lines 180 to 186: the first allocation and the initial values.\<close>

definition init_state :: "(nat \<Rightarrow> bool) \<Rightarrow> error + state" where
  "init_state mem =
     (if mem 0
      then Inr \<lparr>hash_table = (\<lambda>i. []), buf = [], buf_cap = INITIAL_BUF_SIZE, total_words = 0,
                total_sentences = 0, current_sentence_id = 0, nalloc = 1\<rparr>
      else Inl OutOfMemory)"

text \<open>Lines 178 to 240: the input is read and indexed, the last word flushed, and a text with
  words and no terminator counted as one sentence.\<close>

definition index_stream :: "(nat \<Rightarrow> bool) \<Rightarrow> string \<Rightarrow> error + state" where
  "index_stream mem input =
     (case init_state mem of
        Inl err \<Rightarrow> Inl err
      | Inr s0 \<Rightarrow>
          (case read_loop mem input s0 of
             Inl err \<Rightarrow> Inl err
           | Inr s1 \<Rightarrow>
               (case flush_word mem s1 of
                  Inl err \<Rightarrow> Inl err
                | Inr s2 \<Rightarrow>
                    Inr (if total_sentences s2 = 0 \<and> total_words s2 > 0
                         then s2\<lparr>total_sentences := 1\<rparr> else s2))))"

subsection \<open>Collecting, sorting and selecting (lines 242 to 308)\<close>

text \<open>Lines 249 to 260: the entries of one chain are appended to the array; every entry costs
  one \<^verbatim>\<open>realloc\<close>.\<close>

fun collect_chain ::
  "(nat \<Rightarrow> bool) \<Rightarrow> WordEntry list \<Rightarrow> WordEntry list \<times> nat \<Rightarrow> error + (WordEntry list \<times> nat)" where
  "collect_chain mem [] (array, n) = Inr (array, n)"
| "collect_chain mem (e # es) (array, n) =
     (if mem n then collect_chain mem es (array @ [e], Suc n) else Inl OutOfMemory)"

text \<open>Lines 246 to 261: the buckets in the order of their index.\<close>

fun collect_buckets ::
  "(nat \<Rightarrow> bool) \<Rightarrow> table \<Rightarrow> nat list \<Rightarrow> WordEntry list \<times> nat \<Rightarrow> error + (WordEntry list \<times> nat)" where
  "collect_buckets mem ht [] a = Inr a"
| "collect_buckets mem ht (i # is) a =
     (case collect_chain mem (ht i) a of
        Inl err \<Rightarrow> Inl err
      | Inr a1 \<Rightarrow> collect_buckets mem ht is a1)"

definition collect :: "(nat \<Rightarrow> bool) \<Rightarrow> table \<Rightarrow> nat \<Rightarrow> error + (WordEntry list \<times> nat)" where
  "collect mem ht n = collect_buckets mem ht [0..<HASH_SIZE] ([], n)"

definition cmp_wordptr_count :: "WordEntry \<Rightarrow> WordEntry \<Rightarrow> int" where
  "cmp_wordptr_count wa wb =
     (if count_e wa < count_e wb then 1
      else if count_e wa > count_e wb then - 1
      else 0)"

text \<open>What the C standard promises of \<^verbatim>\<open>qsort\<close> called with \<^verbatim>\<open>cmp_wordptr_count\<close>: the array
  is permuted, and afterwards no element compares greater than a later one.\<close>

definition qsort_contract ::
  "((WordEntry \<Rightarrow> WordEntry \<Rightarrow> int) \<Rightarrow> WordEntry list \<Rightarrow> WordEntry list) \<Rightarrow> bool" where
  "qsort_contract qs =
     (\<forall>xs. mset (qs cmp_wordptr_count xs) = mset xs \<and>
           sorted_wrt (\<lambda>a b. cmp_wordptr_count a b \<le> 0) (qs cmp_wordptr_count xs))"

text \<open>One sorting function with this contract: insertion from the right, which keeps the
  order of the elements that compare equal.\<close>

fun insert_by :: "('a \<Rightarrow> 'a \<Rightarrow> int) \<Rightarrow> 'a \<Rightarrow> 'a list \<Rightarrow> 'a list" where
  "insert_by cmp x [] = [x]"
| "insert_by cmp x (y # ys) = (if cmp x y \<le> 0 then x # y # ys else y # insert_by cmp x ys)"

definition insertion_qsort :: "('a \<Rightarrow> 'a \<Rightarrow> int) \<Rightarrow> 'a list \<Rightarrow> 'a list" where
  "insertion_qsort cmp xs = foldr (insert_by cmp) xs []"

text \<open>Lines 298 to 308: the first four entries of the sorted array that are neither the topic
  entry nor a stop word. \<open>top4\<close> holds the slots filled so far, \<open>found\<close> is its length; the
  slots of the C array after \<open>found\<close> stay \<^verbatim>\<open>NULL\<close>.\<close>

fun gather_top4 :: "WordEntry option \<Rightarrow> WordEntry list \<Rightarrow> WordEntry list \<Rightarrow> WordEntry list" where
  "gather_top4 topic_entry [] top4 = top4"
| "gather_top4 topic_entry (e # es) top4 =
     (if length top4 < 4
      then if Some e = topic_entry then gather_top4 topic_entry es top4
           else if is_stop_word (word e) then gather_top4 topic_entry es top4
           else gather_top4 topic_entry es (top4 @ [e])
      else top4)"

text \<open>The environment of a run: the bytes on standard input, the files that \<^verbatim>\<open>fopen\<close> can
  open with their contents, the answers of the allocator, and the \<^verbatim>\<open>qsort\<close> of the C library.\<close>

record env =
  stdin_data :: string
  fopen :: "string \<Rightarrow> string option"
  malloc_ok :: "nat \<Rightarrow> bool"
  qsort :: "(WordEntry \<Rightarrow> WordEntry \<Rightarrow> int) \<Rightarrow> WordEntry list \<Rightarrow> WordEntry list"

text \<open>Lines 242 to 308. The result is the topic entry (\<open>None\<close> for \<^verbatim>\<open>NULL\<close>) and the entries
  selected into \<^verbatim>\<open>top4\<close>.\<close>

definition rank_words :: "env \<Rightarrow> string \<Rightarrow> state \<Rightarrow> error + (WordEntry option \<times> WordEntry list)" where
  "rank_words env topic s =
     (case collect (malloc_ok env) (hash_table s) (nalloc s) of
        Inl err \<Rightarrow> Inl err
      | Inr (array, n) \<Rightarrow>
          let sorted_array = qsort env cmp_wordptr_count array
          in if \<not> malloc_ok env n then Inl OutOfMemory
             else
               let topic_lc = map tolower topic;
                   topic_entry = find (\<lambda>e. word e = topic_lc) (hash_table s (hash_word topic_lc))
               in Inr (topic_entry, gather_top4 topic_entry sorted_array []))"

subsection \<open>The report (lines 310 to 344)\<close>

record row =
  row_word :: string
  row_count :: int
  row_pct_w :: real
  row_sentence_count :: int
  row_total_sentences :: int
  row_pct_s :: real

record report =
  rep_topic :: string
  rep_total_words :: int
  rep_total_sentences :: int
  rep_rows :: "row list"

text \<open>The macro \<^verbatim>\<open>PRINT_LINE\<close>: no line for \<^verbatim>\<open>NULL\<close>.\<close>

definition PRINT_LINE :: "int \<Rightarrow> int \<Rightarrow> WordEntry option \<Rightarrow> row list" where
  "PRINT_LINE tw ts entry =
     (case entry of
        None \<Rightarrow> []
      | Some e \<Rightarrow>
          [\<lparr>row_word = word e, row_count = count_e e,
            row_pct_w = (if tw > 0 then 100 * real_of_int (count_e e) / real_of_int tw else 0),
            row_sentence_count = sentence_count e, row_total_sentences = ts,
            row_pct_s = (if ts > 0 then 100 * real_of_int (sentence_count e) / real_of_int ts else 0)\<rparr>])"

definition print_report :: "string \<Rightarrow> state \<Rightarrow> WordEntry option \<Rightarrow> WordEntry list \<Rightarrow> report" where
  "print_report topic s topic_entry top4 =
     \<lparr>rep_topic = topic, rep_total_words = total_words s, rep_total_sentences = total_sentences s,
      rep_rows = PRINT_LINE (total_words s) (total_sentences s) topic_entry
                 @ concat (map (\<lambda>e. PRINT_LINE (total_words s) (total_sentences s) (Some e)) top4)\<rparr>"

subsection \<open>\<^verbatim>\<open>main\<close>\<close>

text \<open>\<open>argv\<close> is the argument vector, the program name first; \<^verbatim>\<open>argc\<close> is its length. A run
  ends with an error (exit status \<^verbatim>\<open>EXIT_FAILURE\<close>) or with the report written (exit status
  \<^verbatim>\<open>EXIT_SUCCESS\<close>).\<close>

definition open_input :: "env \<Rightarrow> string list \<Rightarrow> error + string" where
  "open_input env argv =
     (if length argv \<ge> 3
      then case fopen env (argv ! 2) of None \<Rightarrow> Inl FopenFailed | Some bytes \<Rightarrow> Inr bytes
      else Inr (stdin_data env))"

definition main :: "env \<Rightarrow> string list \<Rightarrow> error + report" where
  "main env argv =
     (if length argv < 2 then Inl UsageError
      else
        case open_input env argv of
          Inl err \<Rightarrow> Inl err
        | Inr input \<Rightarrow>
            (case index_stream (malloc_ok env) input of
               Inl err \<Rightarrow> Inl err
             | Inr s \<Rightarrow>
                 (case rank_words env (argv ! 1) s of
                    Inl err \<Rightarrow> Inl err
                  | Inr (topic_entry, top4) \<Rightarrow> Inr (print_report (argv ! 1) s topic_entry top4))))"

definition EXIT_SUCCESS :: int where
  "EXIT_SUCCESS = 0"

definition EXIT_FAILURE :: int where
  "EXIT_FAILURE = 1"

definition exit_status :: "error + report \<Rightarrow> int" where
  "exit_status r = (case r of Inl err \<Rightarrow> EXIT_FAILURE | Inr rep \<Rightarrow> EXIT_SUCCESS)"

text \<open>All entries of the table, in the order in which lines 246 to 261 visit them.\<close>

definition table_entries :: "table \<Rightarrow> WordEntry list" where
  "table_entries ht = concat (map ht [0..<HASH_SIZE])"

text \<open>The environment used for concrete runs: input on standard input, no file can be opened,
  every allocation succeeds, insertion sort for \<^verbatim>\<open>qsort\<close>.\<close>

definition run_env :: "string \<Rightarrow> env" where
  "run_env input =
     \<lparr>stdin_data = input, fopen = (\<lambda>path. None), malloc_ok = (\<lambda>k. True), qsort = insertion_qsort\<rparr>"

subsection \<open>Notions used in the statements\<close>

text \<open>The lookup loop of lines 84 to 91 and 284 to 294: the first entry of the bucket of \<open>w\<close>
  whose word is \<open>w\<close>.\<close>

definition lookup_word :: "table \<Rightarrow> string \<Rightarrow> WordEntry option" where
  "lookup_word ht w = find (\<lambda>e. word e = w) (ht (hash_word w))"

text \<open>Every entry sits in the bucket of its word, and no bucket holds a word twice.\<close>

definition table_ok :: "table \<Rightarrow> bool" where
  "table_ok ht = (\<forall>i. (\<forall>e\<in>set (ht i). hash_word (word e) = i) \<and> distinct (map word (ht i)))"

text \<open>No entry has a negative \<open>sentence_count\<close> or one above its \<open>count\<close>.\<close>

definition counts_ok :: "table \<Rightarrow> bool" where
  "counts_ok ht = (\<forall>i. \<forall>e\<in>set (ht i). 0 \<le> sentence_count e \<and> sentence_count e \<le> count_e e)"

text \<open>The sentence ids: the current one is the number of terminators read so far, no entry
  was last seen in a later sentence, and no entry was seen in more sentences than there are ids
  up to its last one.\<close>

definition sentences_ok :: "state \<Rightarrow> bool" where
  "sentences_ok s =
     (current_sentence_id s = total_sentences s \<and> 0 \<le> total_sentences s \<and>
      (\<forall>i. \<forall>e\<in>set (hash_table s i).
         last_sentence_id e \<le> current_sentence_id s \<and> sentence_count e \<le> last_sentence_id e + 1))"

text \<open>The allocator grants every request from the \<open>a\<close>-th up to, but not including, the
  \<open>b\<close>-th.\<close>

definition granted :: "(nat \<Rightarrow> bool) \<Rightarrow> nat \<Rightarrow> nat \<Rightarrow> bool" where
  "granted mem a b = (\<forall>k. a \<le> k \<and> k < b \<longrightarrow> mem k)"

text \<open>The test of lines 303 to 306: an entry that may enter \<^verbatim>\<open>top4\<close>.\<close>

definition eligible :: "WordEntry option \<Rightarrow> WordEntry \<Rightarrow> bool" where
  "eligible topic_entry e = (Some e \<noteq> topic_entry \<and> \<not> is_stop_word (word e))"

text \<open>The words of a text in the order of their occurrence, as the specification defines a
  token: the maximal runs of alphanumeric bytes, lower-cased. \<open>b\<close> is the run read so far.\<close>

fun tokens_from :: "string \<Rightarrow> string \<Rightarrow> string list" where
  "tokens_from b [] = (if b = [] then [] else [b])"
| "tokens_from b (c # cs) =
     (if isalnum c then tokens_from (b @ [tolower c]) cs
      else (if b = [] then [] else [b]) @ tokens_from [] cs)"

definition tokens :: "string \<Rightarrow> string list" where
  "tokens input = tokens_from [] input"

subsection \<open>Entries and chains\<close>

lemma word_update_counts: "word (update_counts cur e) = word e"
  by (simp add: update_counts_def Let_def)

lemma count_update_counts: "count_e (update_counts cur e) = count_e e + 1"
  by (simp add: update_counts_def Let_def)

lemma sentence_count_update_counts:
  "sentence_count (update_counts cur e) =
     (if last_sentence_id e \<noteq> cur then sentence_count e + 1 else sentence_count e)"
  by (simp add: update_counts_def Let_def)

lemma last_sentence_id_update_counts: "last_sentence_id (update_counts cur e) = cur"
  by (simp add: update_counts_def Let_def)

lemma map_word_update_chain: "map word (update_chain w cur es) = map word es"
  by (induction es) (simp_all add: word_update_counts)

lemma find_word_None: "find (\<lambda>e. word e = w) es = None \<longleftrightarrow> w \<notin> word ` set es"
  by (induction es) auto

lemma set_update_chain:
  "e' \<in> set (update_chain w cur es) \<Longrightarrow> e' \<in> set es \<or> (\<exists>e\<in>set es. word e = w \<and> e' = update_counts cur e)"
  by (induction es) (auto split: if_splits)

lemma sum_count_update_chain:
  "w \<in> word ` set es \<Longrightarrow>
   sum_list (map count_e (update_chain w cur es)) = sum_list (map count_e es) + 1"
  by (induction es) (auto simp: count_update_counts)

lemma get_word_entry_frame:
  assumes "get_word_entry mem w cur s = Inr s'"
  shows "buf s' = buf s" "buf_cap s' = buf_cap s" "total_words s' = total_words s"
    "total_sentences s' = total_sentences s" "current_sentence_id s' = current_sentence_id s"
    "i \<noteq> hash_word w \<Longrightarrow> hash_table s' i = hash_table s i"
  using assms
  by (auto simp: get_word_entry_def Let_def split: option.splits if_splits)

lemma get_word_entry_bucket:
  assumes "get_word_entry mem w cur s = Inr s'"
  shows "hash_table s' (hash_word w) =
     (case find (\<lambda>e. word e = w) (hash_table s (hash_word w)) of
        Some e \<Rightarrow> update_chain w cur (hash_table s (hash_word w))
      | None \<Rightarrow> update_counts cur \<lparr>word = w, count_e = 0, sentence_count = 0, last_sentence_id = - 1\<rparr>
                # hash_table s (hash_word w))"
  using assms
  by (auto simp: get_word_entry_def Let_def split: option.splits if_splits)

lemma get_word_entry_nalloc:
  assumes "get_word_entry mem w cur s = Inr s'"
  shows "nalloc s \<le> nalloc s'"
  using assms
  by (auto simp: get_word_entry_def Let_def split: option.splits if_splits)

subsection \<open>Invariants of the table carry over from one call to the whole run\<close>

lemma flush_word_cases:
  assumes "flush_word mem s = Inr s'"
  shows "(buf s = [] \<and> s' = s) \<or>
         (buf s \<noteq> [] \<and> (\<exists>s1. get_word_entry mem (buf s) (current_sentence_id s) s = Inr s1 \<and>
             s' = s1\<lparr>total_words := total_words s1 + 1, buf := []\<rparr>))"
  using assms by (auto simp: flush_word_def split: if_splits sum.splits)

lemma flush_word_invariant:
  assumes step: "\<And>w cur s s'. P (hash_table s) (total_words s) \<Longrightarrow>
            get_word_entry mem w cur s = Inr s' \<Longrightarrow> P (hash_table s') (total_words s' + 1)"
    and "P (hash_table s) (total_words s)" and "flush_word mem s = Inr s'"
  shows "P (hash_table s') (total_words s')"
  using flush_word_cases [OF assms(3)] assms(2) step by auto

lemma read_char_invariant:
  assumes step: "\<And>w cur s s'. P (hash_table s) (total_words s) \<Longrightarrow>
            get_word_entry mem w cur s = Inr s' \<Longrightarrow> P (hash_table s') (total_words s' + 1)"
    and P: "P (hash_table s) (total_words s)" and rc: "read_char mem c s = Inr s'"
  shows "P (hash_table s') (total_words s')"
proof (cases "isalnum c")
  case True
  with rc have "hash_table s' = hash_table s" "total_words s' = total_words s"
    by (auto simp: read_char_def split: if_splits sum.splits)
  with P show ?thesis by simp
next
  case False
  with rc obtain s1 where f: "flush_word mem s = Inr s1"
    and eq: "hash_table s' = hash_table s1" "total_words s' = total_words s1"
    by (auto simp: read_char_def split: if_splits sum.splits)
  from flush_word_invariant [of P mem, OF step P f] eq show ?thesis by simp
qed

lemma read_loop_invariant:
  assumes step: "\<And>w cur s s'. P (hash_table s) (total_words s) \<Longrightarrow>
            get_word_entry mem w cur s = Inr s' \<Longrightarrow> P (hash_table s') (total_words s' + 1)"
  shows "P (hash_table s) (total_words s) \<Longrightarrow> read_loop mem cs s = Inr s' \<Longrightarrow>
         P (hash_table s') (total_words s')"
proof (induction cs arbitrary: s)
  case Nil
  then show ?case by simp
next
  case (Cons c cs)
  from Cons.prems(2) obtain s1 where rc: "read_char mem c s = Inr s1"
    and rl: "read_loop mem cs s1 = Inr s'"
    by (auto split: sum.splits)
  from read_char_invariant [of P mem, OF step Cons.prems(1) rc]
  have "P (hash_table s1) (total_words s1)" .
  from Cons.IH [OF this rl] show ?case .
qed

lemma index_stream_cases:
  assumes "index_stream mem input = Inr st"
  obtains s0 s1 s2 where "init_state mem = Inr s0" "read_loop mem input s0 = Inr s1"
    "flush_word mem s1 = Inr s2"
    "st = (if total_sentences s2 = 0 \<and> total_words s2 > 0 then s2\<lparr>total_sentences := 1\<rparr> else s2)"
  using assms by (auto simp: index_stream_def split: sum.splits)

lemma init_state_Inr:
  assumes "init_state mem = Inr s0"
  shows "s0 = \<lparr>hash_table = (\<lambda>i. []), buf = [], buf_cap = INITIAL_BUF_SIZE, total_words = 0,
                total_sentences = 0, current_sentence_id = 0, nalloc = 1\<rparr>"
  using assms by (auto simp: init_state_def split: if_splits)

lemma index_stream_invariant:
  assumes init: "P (\<lambda>i. []) 0"
    and step: "\<And>w cur s s'. P (hash_table s) (total_words s) \<Longrightarrow>
            get_word_entry mem w cur s = Inr s' \<Longrightarrow> P (hash_table s') (total_words s' + 1)"
    and run: "index_stream mem input = Inr st"
  shows "P (hash_table st) (total_words st)"
proof -
  from run obtain s0 s1 s2 where i: "init_state mem = Inr s0"
    and l: "read_loop mem input s0 = Inr s1" and f: "flush_word mem s1 = Inr s2"
    and st: "st = (if total_sentences s2 = 0 \<and> total_words s2 > 0 then s2\<lparr>total_sentences := 1\<rparr> else s2)"
    by (rule index_stream_cases)
  from init_state_Inr [OF i] init have "P (hash_table s0) (total_words s0)" by simp
  from read_loop_invariant [of P mem, OF step this l]
  have "P (hash_table s1) (total_words s1)" .
  from flush_word_invariant [of P mem, OF step this f]
  have "P (hash_table s2) (total_words s2)" .
  with st show ?thesis by simp
qed

lemma hash_word_less: "hash_word w < HASH_SIZE"
  unfolding hash_word_def HASH_SIZE_def by simp

lemma table_okD:
  assumes "table_ok ht"
  shows "e \<in> set (ht i) \<Longrightarrow> hash_word (word e) = i" and "distinct (map word (ht i))"
  using assms unfolding table_ok_def by blast+

lemma get_word_entry_table_ok:
  assumes ok: "table_ok (hash_table s)" and g: "get_word_entry mem w cur s = Inr s'"
  shows "table_ok (hash_table s')"
  unfolding table_ok_def
proof (intro allI conjI ballI)
  fix i e
  assume e: "e \<in> set (hash_table s' i)"
  show "hash_word (word e) = i"
  proof (cases "i = hash_word w")
    case False
    with get_word_entry_frame(6) [OF g] e have "e \<in> set (hash_table s i)" by simp
    then show ?thesis by (rule table_okD(1) [OF ok])
  next
    case True
    show ?thesis
    proof (cases "find (\<lambda>e. word e = w) (hash_table s (hash_word w))")
      case None
      with get_word_entry_bucket [OF g] e True
      have "e = update_counts cur \<lparr>word = w, count_e = 0, sentence_count = 0, last_sentence_id = - 1\<rparr>
            \<or> e \<in> set (hash_table s i)" by auto
      then show ?thesis
      proof
        assume "e = update_counts cur \<lparr>word = w, count_e = 0, sentence_count = 0, last_sentence_id = - 1\<rparr>"
        then show ?thesis using True by (simp add: word_update_counts)
      next
        assume "e \<in> set (hash_table s i)"
        then show ?thesis by (rule table_okD(1) [OF ok])
      qed
    next
      case (Some a)
      with get_word_entry_bucket [OF g] e True
      have "e \<in> set (update_chain w cur (hash_table s i))" by simp
      from set_update_chain [OF this]
      show ?thesis
      proof
        assume "e \<in> set (hash_table s i)"
        then show ?thesis by (rule table_okD(1) [OF ok])
      next
        assume "\<exists>e0\<in>set (hash_table s i). word e0 = w \<and> e = update_counts cur e0"
        then obtain e0 where "e0 \<in> set (hash_table s i)" "e = update_counts cur e0" by blast
        with table_okD(1) [OF ok, of e0 i] show ?thesis by (simp add: word_update_counts)
      qed
    qed
  qed
next
  fix i
  show "distinct (map word (hash_table s' i))"
  proof (cases "i = hash_word w")
    case False
    with get_word_entry_frame(6) [OF g] table_okD(2) [OF ok, of i] show ?thesis by simp
  next
    case True
    show ?thesis
    proof (cases "find (\<lambda>e. word e = w) (hash_table s (hash_word w))")
      case None
      then have "w \<notin> word ` set (hash_table s (hash_word w))" by (simp add: find_word_None)
      with get_word_entry_bucket [OF g] None True table_okD(2) [OF ok, of i] show ?thesis
        by (simp add: word_update_counts)
    next
      case (Some a)
      with get_word_entry_bucket [OF g] True table_okD(2) [OF ok, of i] show ?thesis
        by (simp add: map_word_update_chain)
    qed
  qed
qed

lemma update_counts_counts:
  assumes "0 \<le> sentence_count e \<and> sentence_count e \<le> count_e e"
  shows "0 \<le> sentence_count (update_counts cur e) \<and>
         sentence_count (update_counts cur e) \<le> count_e (update_counts cur e)"
  using assms by (simp add: sentence_count_update_counts count_update_counts)

lemma get_word_entry_counts_ok:
  assumes ok: "counts_ok (hash_table s)" and g: "get_word_entry mem w cur s = Inr s'"
  shows "counts_ok (hash_table s')"
  unfolding counts_ok_def
proof (intro allI ballI)
  fix i e
  assume e: "e \<in> set (hash_table s' i)"
  show "0 \<le> sentence_count e \<and> sentence_count e \<le> count_e e"
  proof (cases "i = hash_word w")
    case False
    with get_word_entry_frame(6) [OF g] e ok show ?thesis by (simp add: counts_ok_def)
  next
    case True
    show ?thesis
    proof (cases "find (\<lambda>e. word e = w) (hash_table s (hash_word w))")
      case None
      with get_word_entry_bucket [OF g] e True
      have "e = update_counts cur \<lparr>word = w, count_e = 0, sentence_count = 0, last_sentence_id = - 1\<rparr>
            \<or> e \<in> set (hash_table s i)" by auto
      then show ?thesis
      proof
        assume "e = update_counts cur \<lparr>word = w, count_e = 0, sentence_count = 0, last_sentence_id = - 1\<rparr>"
        then show ?thesis by (simp add: update_counts_def Let_def)
      next
        assume "e \<in> set (hash_table s i)"
        with ok show ?thesis by (simp add: counts_ok_def)
      qed
    next
      case (Some a)
      with get_word_entry_bucket [OF g] e True
      have "e \<in> set (update_chain w cur (hash_table s i))" by simp
      from set_update_chain [OF this]
      show ?thesis
      proof
        assume "e \<in> set (hash_table s i)"
        with ok show ?thesis by (simp add: counts_ok_def)
      next
        assume "\<exists>e0\<in>set (hash_table s i). word e0 = w \<and> e = update_counts cur e0"
        then obtain e0 where "e0 \<in> set (hash_table s i)" "e = update_counts cur e0" by blast
        with ok update_counts_counts [of e0 cur] show ?thesis by (simp add: counts_ok_def)
      qed
    qed
  qed
qed

lemma index_stream_table_ok:
  assumes "index_stream mem input = Inr st"
  shows "table_ok (hash_table st)"
proof -
  have "(\<lambda>ht (tw::int). table_ok ht) (hash_table st) (total_words st)"
  proof (rule index_stream_invariant [OF _ _ assms])
    show "table_ok (\<lambda>i. [])" by (simp add: table_ok_def)
  next
    fix w cur s s'
    assume "table_ok (hash_table s)" "get_word_entry mem w cur s = Inr s'"
    then show "table_ok (hash_table s')" by (rule get_word_entry_table_ok)
  qed
  then show ?thesis .
qed

lemma index_stream_counts_ok:
  assumes "index_stream mem input = Inr st"
  shows "counts_ok (hash_table st)"
proof -
  have "(\<lambda>ht (tw::int). counts_ok ht) (hash_table st) (total_words st)"
  proof (rule index_stream_invariant [OF _ _ assms])
    show "counts_ok (\<lambda>i. [])" by (simp add: counts_ok_def)
  next
    fix w cur s s'
    assume "counts_ok (hash_table s)" "get_word_entry mem w cur s = Inr s'"
    then show "counts_ok (hash_table s')" by (rule get_word_entry_counts_ok)
  qed
  then show ?thesis .
qed

subsection \<open>All entries of the table\<close>

lemma sum_list_concat_upt:
  fixes f :: "'a \<Rightarrow> int"
  shows "sum_list (map f (concat (map g [0..<n]))) = (\<Sum>i<n. sum_list (map f (g i)))"
  by (induction n) simp_all

lemma sum_table_entries:
  fixes f :: "WordEntry \<Rightarrow> int"
  shows "sum_list (map f (table_entries ht)) = (\<Sum>i<HASH_SIZE. sum_list (map f (ht i)))"
  unfolding table_entries_def by (rule sum_list_concat_upt)

lemma sum_fun_upd:
  fixes F :: "'b \<Rightarrow> int" and n :: nat
  assumes "h < n"
  shows "(\<Sum>i<n. F ((g(h := c)) i)) = (\<Sum>i<n. F (g i)) - F (g h) + F c"
proof -
  have fin: "finite {..<n}" and mem: "h \<in> {..<n}" using assms by simp_all
  have "(\<Sum>i<n. F ((g(h := c)) i)) = F c + (\<Sum>i\<in>{..<n} - {h}. F ((g(h := c)) i))"
    using sum.remove [OF fin mem, of "\<lambda>i. F ((g(h := c)) i)"] by simp
  also have "(\<Sum>i\<in>{..<n} - {h}. F ((g(h := c)) i)) = (\<Sum>i\<in>{..<n} - {h}. F (g i))"
    by (rule sum.cong) simp_all
  also have "\<dots> = (\<Sum>i<n. F (g i)) - F (g h)"
    using sum.remove [OF fin mem, of "\<lambda>i. F (g i)"] by simp
  finally show ?thesis by simp
qed

lemma set_table_entries: "set (table_entries ht) = (\<Union>i<HASH_SIZE. set (ht i))"
  unfolding table_entries_def by auto

lemma table_ok_entries:
  assumes "table_ok ht"
  shows "e \<in> set (table_entries ht) \<longleftrightarrow> (\<exists>i. e \<in> set (ht i))"
proof
  assume "e \<in> set (table_entries ht)"
  then show "\<exists>i. e \<in> set (ht i)" by (auto simp: set_table_entries)
next
  assume "\<exists>i. e \<in> set (ht i)"
  then obtain i where i: "e \<in> set (ht i)" ..
  from table_okD(1) [OF assms i] hash_word_less [of "word e"] have "i < HASH_SIZE" by simp
  with i show "e \<in> set (table_entries ht)" by (auto simp: set_table_entries)
qed

lemma distinct_words_upt:
  assumes "table_ok ht"
  shows "distinct (map word (concat (map ht [0..<n])))"
proof (induction n)
  case 0
  show ?case by simp
next
  case (Suc n)
  have "word ` set (concat (map ht [0..<n])) \<inter> word ` set (ht n) = {}"
  proof (rule ccontr)
    assume "word ` set (concat (map ht [0..<n])) \<inter> word ` set (ht n) \<noteq> {}"
    then obtain a b where a: "a \<in> set (concat (map ht [0..<n]))" and b: "b \<in> set (ht n)"
      and eq: "word a = word b" by auto
    from a obtain i where "i < n" "a \<in> set (ht i)" by auto
    with table_okD(1) [OF assms, of a i] table_okD(1) [OF assms b] eq show False by simp
  qed
  with Suc table_okD(2) [OF assms, of n] show ?case by simp
qed

lemma distinct_words_table_entries:
  assumes "table_ok ht"
  shows "distinct (map word (table_entries ht))"
  unfolding table_entries_def using assms by (rule distinct_words_upt)

lemma distinct_table_entries:
  assumes "table_ok ht"
  shows "distinct (table_entries ht)"
  using distinct_words_table_entries [OF assms] by (rule distinct_map [THEN iffD1, THEN conjunct1])

lemma get_word_entry_sum:
  assumes g: "get_word_entry mem w cur s = Inr s'"
  shows "sum_list (map count_e (table_entries (hash_table s'))) =
         sum_list (map count_e (table_entries (hash_table s))) + 1"
proof -
  let ?h = "hash_word w"
  let ?F = "\<lambda>es. sum_list (map count_e es)"
  have upd: "hash_table s' = (hash_table s)(?h := hash_table s' ?h)"
  proof
    fix i
    show "hash_table s' i = ((hash_table s)(?h := hash_table s' ?h)) i"
      using get_word_entry_frame(6) [OF g, of i] by simp
  qed
  have bucket: "?F (hash_table s' ?h) = ?F (hash_table s ?h) + 1"
  proof (cases "find (\<lambda>e. word e = w) (hash_table s ?h)")
    case None
    with get_word_entry_bucket [OF g] show ?thesis by (simp add: count_update_counts)
  next
    case (Some a)
    then have "w \<in> word ` set (hash_table s ?h)"
      using find_word_None [of w "hash_table s ?h"] by simp
    from sum_count_update_chain [OF this] Some get_word_entry_bucket [OF g]
    show ?thesis by simp
  qed
  have "?F (table_entries (hash_table s')) = (\<Sum>i<HASH_SIZE. ?F (((hash_table s)(?h := hash_table s' ?h)) i))"
    using upd by (simp add: sum_table_entries)
  also have "\<dots> = (\<Sum>i<HASH_SIZE. ?F (hash_table s i)) - ?F (hash_table s ?h) + ?F (hash_table s' ?h)"
    by (rule sum_fun_upd [OF hash_word_less])
  also have "\<dots> = ?F (table_entries (hash_table s)) + 1"
    using bucket by (simp add: sum_table_entries)
  finally show ?thesis .
qed

lemma index_stream_sum:
  assumes "index_stream mem input = Inr st"
  shows "sum_list (map count_e (table_entries (hash_table st))) = total_words st"
proof (rule index_stream_invariant [of "\<lambda>ht tw. sum_list (map count_e (table_entries ht)) = tw", OF _ _ assms])
  show "sum_list (map count_e (table_entries (\<lambda>i. []))) = 0"
    by (simp add: sum_table_entries)
next
  fix w cur s s'
  assume "sum_list (map count_e (table_entries (hash_table s))) = total_words s"
    and g: "get_word_entry mem w cur s = Inr s'"
  with get_word_entry_sum [OF g] get_word_entry_frame(3) [OF g]
  show "sum_list (map count_e (table_entries (hash_table s'))) = total_words s' + 1" by simp
qed

lemma member_le_sum_list_int:
  fixes f :: "'a \<Rightarrow> int"
  assumes "\<forall>x\<in>set xs. 0 \<le> f x" and "e \<in> set xs"
  shows "f e \<le> sum_list (map f xs)"
  using assms
proof (induction xs)
  case Nil
  then show ?case by simp
next
  case (Cons x xs)
  have "0 \<le> sum_list (map f xs)" using Cons.prems(1) by (intro sum_list_nonneg) auto
  with Cons show ?case by auto
qed

subsection \<open>Sentences and bounds\<close>

lemma isalnum_not_terminator: "isalnum c \<Longrightarrow> \<not> is_terminator c"
  by (auto simp: isalnum_def is_terminator_def)

lemma flush_word_frame:
  assumes "flush_word mem s = Inr s'"
  shows "total_sentences s' = total_sentences s" "current_sentence_id s' = current_sentence_id s"
    "buf s' = []" "total_words s' = total_words s + (if buf s = [] then 0 else 1)"
    "buf_cap s' = buf_cap s"
proof -
  from flush_word_cases [OF assms]
  have "total_sentences s' = total_sentences s \<and> current_sentence_id s' = current_sentence_id s \<and>
    buf s' = [] \<and> total_words s' = total_words s + (if buf s = [] then 0 else 1) \<and>
    buf_cap s' = buf_cap s"
  proof
    assume "buf s = [] \<and> s' = s"
    then show ?thesis by simp
  next
    assume "buf s \<noteq> [] \<and> (\<exists>s1. get_word_entry mem (buf s) (current_sentence_id s) s = Inr s1 \<and>
             s' = s1\<lparr>total_words := total_words s1 + 1, buf := []\<rparr>)"
    then obtain s1 where ne: "buf s \<noteq> []"
      and g: "get_word_entry mem (buf s) (current_sentence_id s) s = Inr s1"
      and s': "s' = s1\<lparr>total_words := total_words s1 + 1, buf := []\<rparr>" by blast
    from get_word_entry_frame(2-5) [OF g] s' ne show ?thesis by simp
  qed
  then show "total_sentences s' = total_sentences s" "current_sentence_id s' = current_sentence_id s"
    "buf s' = []" "total_words s' = total_words s + (if buf s = [] then 0 else 1)"
    "buf_cap s' = buf_cap s" by simp_all
qed

lemma read_char_sentences:
  assumes "read_char mem c s = Inr s'"
  shows "total_sentences s' = total_sentences s + (if is_terminator c then 1 else 0)"
proof (cases "isalnum c")
  case True
  with assms isalnum_not_terminator [OF True] show ?thesis
    by (auto simp: read_char_def split: if_splits sum.splits)
next
  case False
  with assms obtain s1 where f: "flush_word mem s = Inr s1"
    and "total_sentences s' = (if is_terminator c then total_sentences s1 + 1 else total_sentences s1)"
    by (auto simp: read_char_def split: if_splits sum.splits)
  with flush_word_frame(1) [OF f] show ?thesis by simp
qed

lemma read_loop_sentences:
  "read_loop mem cs s = Inr s' \<Longrightarrow>
   total_sentences s' = total_sentences s + int (length (filter is_terminator cs))"
proof (induction cs arbitrary: s)
  case Nil
  then show ?case by simp
next
  case (Cons c cs)
  from Cons.prems obtain s1 where rc: "read_char mem c s = Inr s1"
    and rl: "read_loop mem cs s1 = Inr s'"
    by (auto split: sum.splits)
  from Cons.IH [OF rl] read_char_sentences [OF rc] show ?case by simp
qed

lemma index_stream_sentences:
  assumes "index_stream mem input = Inr st"
  shows "total_sentences st =
     (if length (filter is_terminator input) = 0 \<and> total_words st > 0 then 1
      else int (length (filter is_terminator input)))"
proof -
  from assms obtain s0 s1 s2 where i: "init_state mem = Inr s0"
    and l: "read_loop mem input s0 = Inr s1" and f: "flush_word mem s1 = Inr s2"
    and st: "st = (if total_sentences s2 = 0 \<and> total_words s2 > 0 then s2\<lparr>total_sentences := 1\<rparr> else s2)"
    by (rule index_stream_cases)
  have "total_sentences s2 = int (length (filter is_terminator input))"
    using read_loop_sentences [OF l] flush_word_frame(1) [OF f] init_state_Inr [OF i] by simp
  with st show ?thesis by auto
qed

lemma read_char_words_bound:
  assumes "read_char mem c s = Inr s'"
  shows "total_words s' + (if buf s' = [] then 0 else 1)
         \<le> total_words s + (if buf s = [] then 0 else 1) + 1"
proof (cases "isalnum c")
  case True
  with assms have "total_words s' = total_words s"
    by (auto simp: read_char_def split: if_splits sum.splits)
  then show ?thesis by simp
next
  case False
  with assms obtain s1 where f: "flush_word mem s = Inr s1"
    and "total_words s' = total_words s1" "buf s' = buf s1"
    by (auto simp: read_char_def split: if_splits sum.splits)
  with flush_word_frame(3,4) [OF f] show ?thesis by simp
qed

lemma read_loop_words_bound:
  "read_loop mem cs s = Inr s' \<Longrightarrow>
   total_words s' + (if buf s' = [] then 0 else 1)
     \<le> total_words s + (if buf s = [] then 0 else 1) + int (length cs)"
proof (induction cs arbitrary: s)
  case Nil
  then show ?case by simp
next
  case (Cons c cs)
  from Cons.prems obtain s1 where rc: "read_char mem c s = Inr s1"
    and rl: "read_loop mem cs s1 = Inr s'"
    by (auto split: sum.splits)
  from Cons.IH [OF rl] read_char_words_bound [OF rc] show ?case by simp
qed

lemma index_stream_words_bound:
  assumes "index_stream mem input = Inr st"
  shows "total_words st \<le> int (length input)"
proof -
  from assms obtain s0 s1 s2 where i: "init_state mem = Inr s0"
    and l: "read_loop mem input s0 = Inr s1" and f: "flush_word mem s1 = Inr s2"
    and st: "st = (if total_sentences s2 = 0 \<and> total_words s2 > 0 then s2\<lparr>total_sentences := 1\<rparr> else s2)"
    by (rule index_stream_cases)
  from read_loop_words_bound [OF l] init_state_Inr [OF i]
  have "total_words s1 + (if buf s1 = [] then 0 else 1) \<le> int (length input)" by simp
  with flush_word_frame(4) [OF f] st show ?thesis by simp
qed

lemma index_stream_bounded:
  assumes run: "index_stream mem input = Inr st"
  shows "0 \<le> total_words st \<and> total_words st \<le> int (length input) \<and>
         0 \<le> total_sentences st \<and> total_sentences st \<le> int (length input) \<and>
         (\<forall>e\<in>set (table_entries (hash_table st)).
            0 \<le> sentence_count e \<and> sentence_count e \<le> count_e e \<and> count_e e \<le> total_words st)"
proof -
  have c: "counts_ok (hash_table st)" using run by (rule index_stream_counts_ok)
  have nonneg: "\<forall>e\<in>set (table_entries (hash_table st)). 0 \<le> count_e e"
    using c by (fastforce simp: counts_ok_def set_table_entries)
  have le: "\<forall>e\<in>set (table_entries (hash_table st)). count_e e \<le> total_words st"
    using member_le_sum_list_int [OF nonneg] index_stream_sum [OF run] by auto
  have tw0: "0 \<le> total_words st"
    using index_stream_sum [OF run] sum_list_nonneg [of "map count_e (table_entries (hash_table st))"] nonneg
    by auto
  have twl: "total_words st \<le> int (length input)" using run by (rule index_stream_words_bound)
  have "length (filter is_terminator input) \<le> length input" by simp
  with index_stream_sentences [OF run] twl
  have ts: "0 \<le> total_sentences st \<and> total_sentences st \<le> int (length input)"
    by (auto split: if_splits)
  from c have "\<forall>e\<in>set (table_entries (hash_table st)). 0 \<le> sentence_count e \<and> sentence_count e \<le> count_e e"
    by (fastforce simp: counts_ok_def set_table_entries)
  with le tw0 twl ts show ?thesis by blast
qed

subsection \<open>Failures of the run, the array, sorting and selection\<close>

lemma get_word_entry_Inl:
  assumes "get_word_entry mem w cur s = Inl err"
  shows "err = OutOfMemory \<and> (\<exists>k. \<not> mem k)"
  using assms by (auto simp: get_word_entry_def Let_def split: option.splits if_splits)

lemma flush_word_Inl:
  assumes "flush_word mem s = Inl err"
  shows "err = OutOfMemory \<and> (\<exists>k. \<not> mem k)"
proof -
  from assms have "get_word_entry mem (buf s) (current_sentence_id s) s = Inl err"
    by (auto simp: flush_word_def split: if_splits sum.splits)
  then show ?thesis by (rule get_word_entry_Inl)
qed

lemma read_char_Inl:
  assumes "read_char mem c s = Inl err"
  shows "err = OutOfMemory \<and> (\<exists>k. \<not> mem k)"
proof (cases "isalnum c")
  case True
  with assms show ?thesis by (auto simp: read_char_def split: if_splits sum.splits)
next
  case False
  with assms have "flush_word mem s = Inl err"
    by (auto simp: read_char_def split: if_splits sum.splits)
  then show ?thesis by (rule flush_word_Inl)
qed

lemma read_loop_Inl:
  "read_loop mem cs s = Inl err \<Longrightarrow> err = OutOfMemory \<and> (\<exists>k. \<not> mem k)"
proof (induction cs arbitrary: s)
  case Nil
  then show ?case by simp
next
  case (Cons c cs)
  show ?case
  proof (cases "read_char mem c s")
    case (Inl e)
    with Cons.prems have "e = err" by simp
    with Inl read_char_Inl show ?thesis by blast
  next
    case (Inr s1)
    with Cons.prems have "read_loop mem cs s1 = Inl err" by simp
    then show ?thesis by (rule Cons.IH)
  qed
qed

lemma init_state_Inl:
  assumes "init_state mem = Inl err"
  shows "err = OutOfMemory \<and> (\<exists>k. \<not> mem k)"
  using assms by (auto simp: init_state_def split: if_splits)

lemma index_stream_Inl:
  assumes "index_stream mem input = Inl err"
  shows "err = OutOfMemory \<and> (\<exists>k. \<not> mem k)"
proof (cases "init_state mem")
  case (Inl e)
  with assms have "e = err" by (simp add: index_stream_def)
  with Inl init_state_Inl show ?thesis by blast
next
  case s0: (Inr s0)
  show ?thesis
  proof (cases "read_loop mem input s0")
    case (Inl e)
    with assms s0 have "e = err" by (simp add: index_stream_def)
    with Inl read_loop_Inl show ?thesis by blast
  next
    case s1: (Inr s1)
    show ?thesis
    proof (cases "flush_word mem s1")
      case (Inl e)
      with assms s0 s1 have "e = err" by (simp add: index_stream_def)
      with Inl flush_word_Inl show ?thesis by blast
    next
      case (Inr s2)
      with assms s0 s1 show ?thesis by (simp add: index_stream_def)
    qed
  qed
qed

lemma index_stream_ok:
  assumes "\<forall>k. mem k"
  shows "\<exists>st. index_stream mem input = Inr st"
proof (cases "index_stream mem input")
  case (Inl err)
  from index_stream_Inl [OF this] assms show ?thesis by blast
next
  case (Inr st)
  then show ?thesis by blast
qed

lemma collect_chain_Inr:
  "collect_chain mem es (array, n) = Inr (array', n') \<Longrightarrow>
   array' = array @ es \<and> n' = n + length es"
proof (induction es arbitrary: array n)
  case Nil
  then show ?case by simp
next
  case (Cons e es)
  from Cons.prems have "collect_chain mem es (array @ [e], Suc n) = Inr (array', n')"
    by (simp split: if_splits)
  from Cons.IH [OF this] show ?case by simp
qed

lemma collect_chain_Inl:
  "collect_chain mem es (array, n) = Inl err \<Longrightarrow> err = OutOfMemory \<and> (\<exists>k. \<not> mem k)"
  by (induction es arbitrary: array n) (auto split: if_splits)

lemma collect_buckets_Inr:
  "collect_buckets mem ht is (array, n) = Inr (array', n') \<Longrightarrow>
   array' = array @ concat (map ht is) \<and> n' = n + length (concat (map ht is))"
proof (induction "is" arbitrary: array n)
  case Nil
  then show ?case by simp
next
  case (Cons i "is")
  from Cons.prems obtain a1 n1 where c: "collect_chain mem (ht i) (array, n) = Inr (a1, n1)"
    and b: "collect_buckets mem ht is (a1, n1) = Inr (array', n')"
    by (auto split: sum.splits)
  from collect_chain_Inr [OF c] Cons.IH [OF b] show ?case by simp
qed

lemma collect_buckets_Inl:
  "collect_buckets mem ht is a = Inl err \<Longrightarrow> err = OutOfMemory \<and> (\<exists>k. \<not> mem k)"
proof (induction "is" arbitrary: a)
  case Nil
  then show ?case by simp
next
  case (Cons i "is")
  show ?case
  proof (cases "collect_chain mem (ht i) a")
    case (Inl e)
    with Cons.prems have "e = err" by simp
    with Inl collect_chain_Inl [of mem "ht i" "fst a" "snd a"] show ?thesis by simp
  next
    case (Inr a1)
    with Cons.prems have "collect_buckets mem ht is a1 = Inl err" by simp
    then show ?thesis by (rule Cons.IH)
  qed
qed

lemma collect_Inr:
  assumes "collect mem ht n = Inr (array, n')"
  shows "array = table_entries ht \<and> n' = n + length (table_entries ht)"
  using collect_buckets_Inr [of mem ht "[0..<HASH_SIZE]" "[]" n array n'] assms
  by (simp add: collect_def table_entries_def)

lemma collect_Inl:
  assumes "collect mem ht n = Inl err"
  shows "err = OutOfMemory \<and> (\<exists>k. \<not> mem k)"
  using assms unfolding collect_def by (rule collect_buckets_Inl)

lemma collect_ok:
  assumes "\<forall>k. mem k"
  shows "collect mem ht n = Inr (table_entries ht, n + length (table_entries ht))"
proof (cases "collect mem ht n")
  case (Inl err)
  from collect_Inl [OF this] assms show ?thesis by blast
next
  case (Inr a)
  then have "collect mem ht n = Inr (fst a, snd a)" by simp
  from collect_Inr [OF this] Inr show ?thesis by (cases a) simp
qed

lemma cmp_wordptr_count_le0: "cmp_wordptr_count a b \<le> 0 \<longleftrightarrow> count_e b \<le> count_e a"
  by (simp add: cmp_wordptr_count_def)

lemma mset_insert_by: "mset (insert_by cmp x ys) = add_mset x (mset ys)"
  by (induction ys) simp_all

lemma set_insert_by: "set (insert_by cmp x ys) = insert x (set ys)"
  by (induction ys) auto

lemma sorted_insert_by:
  "sorted_wrt (\<lambda>a b. count_e b \<le> count_e a) ys \<Longrightarrow>
   sorted_wrt (\<lambda>a b. count_e b \<le> count_e a) (insert_by cmp_wordptr_count x ys)"
  by (induction ys) (auto simp: set_insert_by cmp_wordptr_count_le0)

lemma mset_insertion_qsort: "mset (insertion_qsort cmp xs) = mset xs"
  by (induction xs) (simp_all add: insertion_qsort_def mset_insert_by)

lemma sorted_insertion_qsort:
  "sorted_wrt (\<lambda>a b. count_e b \<le> count_e a) (insertion_qsort cmp_wordptr_count xs)"
  by (induction xs) (simp_all add: insertion_qsort_def sorted_insert_by)

lemma insertion_qsort_contract: "qsort_contract insertion_qsort"
  by (simp add: qsort_contract_def mset_insertion_qsort sorted_insertion_qsort cmp_wordptr_count_le0)

lemma qsort_contractD:
  assumes "qsort_contract qs"
  shows "mset (qs cmp_wordptr_count xs) = mset xs"
    and "sorted_wrt (\<lambda>a b. count_e b \<le> count_e a) (qs cmp_wordptr_count xs)"
  using assms by (simp_all add: qsort_contract_def cmp_wordptr_count_le0)

lemma gather_top4_eq:
  "gather_top4 t es top4 = top4 @ take (4 - length top4) (filter (eligible t) es)"
proof (induction es arbitrary: top4)
  case Nil
  show ?case by simp
next
  case (Cons e es)
  show ?case
  proof (cases "length top4 < 4")
    case False
    then show ?thesis by simp
  next
    case True
    then have "4 - length top4 = Suc (4 - length (top4 @ [e]))" by simp
    with True Cons.IH [of top4] Cons.IH [of "top4 @ [e]"] show ?thesis
      by (simp add: eligible_def)
  qed
qed

subsection \<open>Evaluation of concrete runs\<close>

lemma tolower_upper:
  "tolower CHR ''A'' = CHR ''a''" "tolower CHR ''B'' = CHR ''b''" "tolower CHR ''C'' = CHR ''c''"
  "tolower CHR ''D'' = CHR ''d''" "tolower CHR ''E'' = CHR ''e''" "tolower CHR ''F'' = CHR ''f''"
  "tolower CHR ''G'' = CHR ''g''" "tolower CHR ''H'' = CHR ''h''" "tolower CHR ''I'' = CHR ''i''"
  "tolower CHR ''J'' = CHR ''j''" "tolower CHR ''K'' = CHR ''k''" "tolower CHR ''L'' = CHR ''l''"
  "tolower CHR ''M'' = CHR ''m''" "tolower CHR ''N'' = CHR ''n''" "tolower CHR ''O'' = CHR ''o''"
  "tolower CHR ''P'' = CHR ''p''" "tolower CHR ''Q'' = CHR ''q''" "tolower CHR ''R'' = CHR ''r''"
  "tolower CHR ''S'' = CHR ''s''" "tolower CHR ''T'' = CHR ''t''" "tolower CHR ''U'' = CHR ''u''"
  "tolower CHR ''V'' = CHR ''v''" "tolower CHR ''W'' = CHR ''w''" "tolower CHR ''X'' = CHR ''x''"
  "tolower CHR ''Y'' = CHR ''y''" "tolower CHR ''Z'' = CHR ''z''"
  by code_simp+

lemma tolower_other: "\<not> (65 \<le> (of_char c :: nat) \<and> (of_char c :: nat) \<le> 90) \<Longrightarrow> tolower c = c"
  by (auto simp: tolower_def Let_def)

lemma hash_values:
  "hash_word ''the'' = 1495" "hash_word ''cat'' = 2780" "hash_word ''sat'' = 190"
  "hash_word ''ran'' = 9102" "hash_word ''dog'' = 4318" "hash_word ''slept'' = 9288"
  "hash_word ''cats'' = 1792" "hash_word ''hello'' = 9380" "hash_word ''world'' = 1383"
  by (simp_all add: hash_word_def HASH_SIZE_def)

lemmas eval_defs = index_stream_def init_state_def INITIAL_BUF_SIZE_def read_char_def isalnum_def
  flush_word_def get_word_entry_def update_counts_def is_terminator_def tolower_upper tolower_other
  hash_values

lemma concat_map_nonempty: "concat (map f xs) = concat (map f (filter (\<lambda>x. f x \<noteq> []) xs))"
  by (induction xs) simp_all

lemma table_entries_sparse:
  assumes ks: "sorted_wrt (<) ks" and less: "\<forall>k\<in>set ks. k < HASH_SIZE"
    and empty: "\<forall>i. i \<notin> set ks \<longrightarrow> ht i = []"
  shows "table_entries ht = concat (map ht ks)"
proof -
  let ?P = "\<lambda>i. ht i \<noteq> []"
  have s1: "sorted (filter ?P [0..<HASH_SIZE])" "distinct (filter ?P [0..<HASH_SIZE])"
    by (simp_all add: sorted_wrt_filter)
  from ks have "sorted ks" "distinct ks" by (simp_all add: strict_sorted_iff)
  then have s2: "sorted (filter ?P ks)" "distinct (filter ?P ks)"
    by (simp_all add: sorted_wrt_filter)
  have "set (filter ?P [0..<HASH_SIZE]) = set (filter ?P ks)"
    using less empty by auto
  with s1 s2 have "filter ?P [0..<HASH_SIZE] = filter ?P ks"
    by (intro sorted_distinct_set_unique)
  then show ?thesis
    unfolding table_entries_def
    using concat_map_nonempty [of ht "[0..<HASH_SIZE]"] concat_map_nonempty [of ht ks] by simp
qed

lemmas eval_rank = rank_words_def print_report_def PRINT_LINE_def insertion_qsort_def cmp_wordptr_count_def
  is_stop_word_def STOP_WORDS_def

subsection \<open>The table holds the words of the text\<close>

lemma get_word_entry_entries:
  assumes g: "get_word_entry mem w cur s = Inr s'" and e: "e \<in> set (hash_table s' i)"
  shows "e \<in> set (hash_table s i) \<or>
         e = update_counts cur \<lparr>word = w, count_e = 0, sentence_count = 0, last_sentence_id = - 1\<rparr> \<or>
         (\<exists>e0\<in>set (hash_table s i). e = update_counts cur e0)"
proof (cases "i = hash_word w")
  case False
  with get_word_entry_frame(6) [OF g] e show ?thesis by simp
next
  case True
  show ?thesis
  proof (cases "find (\<lambda>e. word e = w) (hash_table s (hash_word w))")
    case None
    with get_word_entry_bucket [OF g] e True show ?thesis by auto
  next
    case (Some a)
    with get_word_entry_bucket [OF g] e True
    have "e \<in> set (update_chain w cur (hash_table s i))" by simp
    from set_update_chain [OF this] show ?thesis by blast
  qed
qed

lemma get_word_entry_words:
  assumes g: "get_word_entry mem w cur s = Inr s'"
  shows "(\<Union>i. word ` set (hash_table s' i)) = insert w (\<Union>i. word ` set (hash_table s i))"
proof -
  let ?h = "hash_word w"
  have other: "\<And>i. i \<noteq> ?h \<Longrightarrow> hash_table s' i = hash_table s i"
    using get_word_entry_frame(6) [OF g] by simp
  have bucket: "word ` set (hash_table s' ?h) = insert w (word ` set (hash_table s ?h))"
  proof (cases "find (\<lambda>e. word e = w) (hash_table s ?h)")
    case None
    with get_word_entry_bucket [OF g] show ?thesis by (simp add: word_update_counts)
  next
    case (Some a)
    then have in_chain: "w \<in> word ` set (hash_table s ?h)"
      using find_word_None [of w "hash_table s ?h"] by simp
    from Some get_word_entry_bucket [OF g]
    have "map word (hash_table s' ?h) = map word (hash_table s ?h)"
      by (simp add: map_word_update_chain)
    then have "set (map word (hash_table s' ?h)) = set (map word (hash_table s ?h))" by simp
    with in_chain show ?thesis by auto
  qed
  show ?thesis
  proof (intro set_eqI iffI)
    fix x
    assume "x \<in> (\<Union>i. word ` set (hash_table s' i))"
    then obtain i where i: "x \<in> word ` set (hash_table s' i)" by blast
    show "x \<in> insert w (\<Union>i. word ` set (hash_table s i))"
    proof (cases "i = ?h")
      case True
      with i bucket show ?thesis by blast
    next
      case False
      with i other [OF False] have "x \<in> word ` set (hash_table s i)" by simp
      then show ?thesis by blast
    qed
  next
    fix x
    assume "x \<in> insert w (\<Union>i. word ` set (hash_table s i))"
    then consider "x = w" | i where "x \<in> word ` set (hash_table s i)" by blast
    then show "x \<in> (\<Union>i. word ` set (hash_table s' i))"
    proof cases
      case 1
      with bucket show ?thesis by blast
    next
      case (2 i)
      show ?thesis
      proof (cases "i = ?h")
        case True
        with 2 bucket show ?thesis by blast
      next
        case False
        with 2 other [OF False] have "x \<in> word ` set (hash_table s' i)" by simp
        then show ?thesis by blast
      qed
    qed
  qed
qed

lemma flush_word_words:
  assumes f: "flush_word mem s = Inr s'"
  shows "(\<Union>i. word ` set (hash_table s' i)) =
         (\<Union>i. word ` set (hash_table s i)) \<union> set (if buf s = [] then [] else [buf s])"
  using flush_word_cases [OF f]
proof
  assume "buf s = [] \<and> s' = s"
  then show ?thesis by simp
next
  assume "buf s \<noteq> [] \<and> (\<exists>s1. get_word_entry mem (buf s) (current_sentence_id s) s = Inr s1 \<and>
             s' = s1\<lparr>total_words := total_words s1 + 1, buf := []\<rparr>)"
  then obtain s1 where ne: "buf s \<noteq> []"
    and g: "get_word_entry mem (buf s) (current_sentence_id s) s = Inr s1"
    and s': "s' = s1\<lparr>total_words := total_words s1 + 1, buf := []\<rparr>" by blast
  from get_word_entry_words [OF g] s' ne show ?thesis by simp
qed

lemma read_char_alnum:
  assumes "read_char mem c s = Inr s'" and "isalnum c"
  shows "hash_table s' = hash_table s" "total_words s' = total_words s"
    "buf s' = buf s @ [tolower c]" "total_sentences s' = total_sentences s"
    "current_sentence_id s' = current_sentence_id s"
  using assms by (auto simp: read_char_def split: if_splits sum.splits)

lemma read_char_other:
  assumes "read_char mem c s = Inr s'" and "\<not> isalnum c"
  obtains s1 where "flush_word mem s = Inr s1" "hash_table s' = hash_table s1"
    "total_words s' = total_words s1" "buf s' = buf s1"
  using assms by (auto simp: read_char_def split: if_splits sum.splits)

lemma read_loop_tokens:
  "read_loop mem cs s = Inr s1 \<Longrightarrow> flush_word mem s1 = Inr s2 \<Longrightarrow>
   (\<Union>i. word ` set (hash_table s2 i)) = (\<Union>i. word ` set (hash_table s i)) \<union> set (tokens_from (buf s) cs) \<and>
   total_words s2 = total_words s + int (length (tokens_from (buf s) cs))"
proof (induction cs arbitrary: s)
  case Nil
  then have f: "flush_word mem s = Inr s2" by simp
  from flush_word_words [OF f] flush_word_frame(4) [OF f] show ?case by simp
next
  case (Cons c cs)
  from Cons.prems(1) obtain sa where rc: "read_char mem c s = Inr sa"
    and rl: "read_loop mem cs sa = Inr s1"
    by (auto split: sum.splits)
  note IH = Cons.IH [OF rl Cons.prems(2)]
  show ?case
  proof (cases "isalnum c")
    case True
    from read_char_alnum(1-3) [OF rc True] IH True show ?thesis by simp
  next
    case False
    from rc False obtain sf where f: "flush_word mem s = Inr sf"
      and eq: "hash_table sa = hash_table sf" "total_words sa = total_words sf" "buf sa = buf sf"
      by (rule read_char_other)
    from flush_word_words [OF f] flush_word_frame(3,4) [OF f] eq IH False
    show ?thesis by auto
  qed
qed

lemma index_stream_tokens:
  assumes run: "index_stream mem input = Inr st"
  shows "word ` set (table_entries (hash_table st)) = set (tokens input)"
    and "total_words st = int (length (tokens input))"
proof -
  from run obtain s0 s1 s2 where i: "init_state mem = Inr s0"
    and l: "read_loop mem input s0 = Inr s1" and f: "flush_word mem s1 = Inr s2"
    and st: "st = (if total_sentences s2 = 0 \<and> total_words s2 > 0 then s2\<lparr>total_sentences := 1\<rparr> else s2)"
    by (rule index_stream_cases)
  from st have eq: "hash_table st = hash_table s2" "total_words st = total_words s2" by simp_all
  from read_loop_tokens [OF l f] init_state_Inr [OF i]
  have w: "(\<Union>i. word ` set (hash_table s2 i)) = set (tokens input)"
    and n: "total_words s2 = int (length (tokens input))"
    by (simp_all add: tokens_def)
  from n eq show "total_words st = int (length (tokens input))" by simp
  have ok: "table_ok (hash_table st)" using run by (rule index_stream_table_ok)
  have "set (table_entries (hash_table st)) = (\<Union>i. set (hash_table st i))"
    using table_ok_entries [OF ok] by (intro set_eqI) simp
  then have "word ` set (table_entries (hash_table st)) = (\<Union>i. word ` set (hash_table st i))"
    by (simp add: image_UN)
  with w eq show "word ` set (table_entries (hash_table st)) = set (tokens input)" by simp
qed

subsection \<open>Recording an occurrence\<close>

lemma find_update_chain_same:
  "find (\<lambda>e. word e = w) es = Some a \<Longrightarrow>
   find (\<lambda>e. word e = w) (update_chain w cur es) = Some (update_counts cur a)"
  by (induction es) (auto simp: word_update_counts)

lemma find_update_chain_other:
  "w' \<noteq> w \<Longrightarrow>
   find (\<lambda>e. word e = w') (update_chain w cur es) = find (\<lambda>e. word e = w') es"
  by (induction es) (auto simp: word_update_counts)

lemma get_word_entry_lookup_same:
  assumes g: "get_word_entry mem w cur s = Inr s'"
  shows "lookup_word (hash_table s') w =
     Some (update_counts cur
       (case lookup_word (hash_table s) w of
          None \<Rightarrow> \<lparr>word = w, count_e = 0, sentence_count = 0, last_sentence_id = - 1\<rparr>
        | Some e \<Rightarrow> e))"
proof (cases "find (\<lambda>e. word e = w) (hash_table s (hash_word w))")
  case None
  with get_word_entry_bucket [OF g] show ?thesis
    by (simp add: lookup_word_def word_update_counts)
next
  case (Some a)
  with get_word_entry_bucket [OF g] find_update_chain_same [OF Some] show ?thesis
    by (simp add: lookup_word_def)
qed

lemma get_word_entry_lookup_other:
  assumes g: "get_word_entry mem w cur s = Inr s'" and ne: "w' \<noteq> w"
  shows "lookup_word (hash_table s') w' = lookup_word (hash_table s) w'"
proof (cases "hash_word w' = hash_word w")
  case False
  with get_word_entry_frame(6) [OF g] show ?thesis by (simp add: lookup_word_def)
next
  case True
  show ?thesis
  proof (cases "find (\<lambda>e. word e = w) (hash_table s (hash_word w))")
    case None
    with get_word_entry_bucket [OF g] True ne show ?thesis
      by (simp add: lookup_word_def word_update_counts)
  next
    case (Some a)
    with get_word_entry_bucket [OF g] True find_update_chain_other [OF ne] show ?thesis
      by (simp add: lookup_word_def)
  qed
qed

lemma get_word_entry_each:
  assumes upd: "\<And>e. Q e \<Longrightarrow> Q (update_counts cur e)"
    and new: "Q (update_counts cur \<lparr>word = w, count_e = 0, sentence_count = 0, last_sentence_id = - 1\<rparr>)"
    and old: "\<forall>i. \<forall>e\<in>set (hash_table s i). Q e"
    and g: "get_word_entry mem w cur s = Inr s'"
  shows "\<forall>i. \<forall>e\<in>set (hash_table s' i). Q e"
proof (intro allI ballI)
  fix i e
  assume "e \<in> set (hash_table s' i)"
  from get_word_entry_entries [OF g this] upd new old show "Q e" by blast
qed

text \<open>
  C3. For every input, every entry of the final table has
  \<open>sentence_count \<le> count\<close> (the table holds exactly the words of the text), and every call of
  \<^verbatim>\<open>get_word_entry\<close> keeps this inequality for all entries of the table.
\<close>

theorem sentence_count_le_total_count:
  "((\<forall>i. \<forall>e\<in>set (hash_table s i). sentence_count e \<le> count_e e) \<and>
      get_word_entry mem w cur s = Inr s'
      \<longrightarrow> (\<forall>i. \<forall>e\<in>set (hash_table s' i). sentence_count e \<le> count_e e)) \<and>
   (index_stream mem input = Inr st
      \<longrightarrow> word ` set (table_entries (hash_table st)) = set (tokens input) \<and>
          (\<forall>e\<in>set (table_entries (hash_table st)). sentence_count e \<le> count_e e))"
proof (intro conjI impI)
  assume a: "(\<forall>i. \<forall>e\<in>set (hash_table s i). sentence_count e \<le> count_e e) \<and>
      get_word_entry mem w cur s = Inr s'"
  show "\<forall>i. \<forall>e\<in>set (hash_table s' i). sentence_count e \<le> count_e e"
  proof (rule get_word_entry_each [where Q = "\<lambda>e. sentence_count e \<le> count_e e"])
    fix e :: WordEntry
    assume "sentence_count e \<le> count_e e"
    then show "sentence_count (update_counts cur e) \<le> count_e (update_counts cur e)"
      by (simp add: sentence_count_update_counts count_update_counts)
  next
    show "sentence_count (update_counts cur \<lparr>word = w, count_e = 0, sentence_count = 0, last_sentence_id = - 1\<rparr>)
          \<le> count_e (update_counts cur \<lparr>word = w, count_e = 0, sentence_count = 0, last_sentence_id = - 1\<rparr>)"
      by (simp add: sentence_count_update_counts count_update_counts)
  next
    from a show "\<forall>i. \<forall>e\<in>set (hash_table s i). sentence_count e \<le> count_e e" by simp
  next
    from a show "get_word_entry mem w cur s = Inr s'" by simp
  qed
next
  assume run: "index_stream mem input = Inr st"
  then show "word ` set (table_entries (hash_table st)) = set (tokens input)"
    by (rule index_stream_tokens(1))
next
  assume run: "index_stream mem input = Inr st"
  from index_stream_bounded [OF run]
  show "\<forall>e\<in>set (table_entries (hash_table st)). sentence_count e \<le> count_e e" by blast
qed

theorem sentence_count_le_total_count_witness:
  "get_word_entry (\<lambda>k. True) ''dog'' 0
     \<lparr>hash_table = (\<lambda>i. [])(4318 := [\<lparr>word = ''dog'', count_e = 1, sentence_count = 1, last_sentence_id = 0\<rparr>]),
      buf = ''dog'', buf_cap = 64, total_words = 1, total_sentences = 0, current_sentence_id = 0, nalloc = 3\<rparr>
   = Inr \<lparr>hash_table = (\<lambda>i. [])(4318 := [\<lparr>word = ''dog'', count_e = 2, sentence_count = 1, last_sentence_id = 0\<rparr>]),
      buf = ''dog'', buf_cap = 64, total_words = 1, total_sentences = 0, current_sentence_id = 0, nalloc = 3\<rparr> \<and>
   sentence_count \<lparr>word = ''dog'', count_e = 2, sentence_count = 1, last_sentence_id = 0\<rparr>
     \<le> count_e \<lparr>word = ''dog'', count_e = 2, sentence_count = 1, last_sentence_id = 0\<rparr> \<and>
   index_stream (\<lambda>k. True) ''dog dog. dog'' =
     Inr \<lparr>hash_table = (\<lambda>i. [])(4318 := [\<lparr>word = ''dog'', count_e = 3, sentence_count = 2, last_sentence_id = 1\<rparr>]),
      buf = [], buf_cap = 64, total_words = 3, total_sentences = 1, current_sentence_id = 1, nalloc = 3\<rparr> \<and>
   tokens ''dog dog. dog'' = [''dog'', ''dog'', ''dog''] \<and>
   sentence_count \<lparr>word = ''dog'', count_e = 3, sentence_count = 2, last_sentence_id = 1\<rparr>
     \<le> count_e \<lparr>word = ''dog'', count_e = 3, sentence_count = 2, last_sentence_id = 1\<rparr>"
proof -
  let ?s = "\<lparr>hash_table = (\<lambda>i. [])(4318 := [\<lparr>word = ''dog'', count_e = 1, sentence_count = 1, last_sentence_id = 0\<rparr>]),
      buf = ''dog'', buf_cap = 64, total_words = 1, total_sentences = 0, current_sentence_id = 0, nalloc = 3\<rparr>"
  let ?s' = "\<lparr>hash_table = (\<lambda>i. [])(4318 := [\<lparr>word = ''dog'', count_e = 2, sentence_count = 1, last_sentence_id = 0\<rparr>]),
      buf = ''dog'', buf_cap = 64, total_words = 1, total_sentences = 0, current_sentence_id = 0, nalloc = 3\<rparr>"
  let ?st = "\<lparr>hash_table = (\<lambda>i. [])(4318 := [\<lparr>word = ''dog'', count_e = 3, sentence_count = 2, last_sentence_id = 1\<rparr>]),
      buf = [], buf_cap = 64, total_words = 3, total_sentences = 1, current_sentence_id = 1, nalloc = 3\<rparr>"
  have g: "get_word_entry (\<lambda>k. True) ''dog'' 0 ?s = Inr ?s'"
    by (simp add: get_word_entry_def update_counts_def hash_values)
  have h: "\<forall>i. \<forall>e\<in>set (hash_table ?s i). sentence_count e \<le> count_e e"
    by simp
  have run: "index_stream (\<lambda>k. True) ''dog dog. dog'' = Inr ?st"
    by (simp add: eval_defs)
  have t: "table_entries (hash_table ?st) = [\<lparr>word = ''dog'', count_e = 3, sentence_count = 2, last_sentence_id = 1\<rparr>]"
    by (simp add: table_entries_sparse [where ks = "[4318]"] HASH_SIZE_def)
  have tok: "tokens ''dog dog. dog'' = [''dog'', ''dog'', ''dog'']"
    by (simp add: tokens_def isalnum_def tolower_other)
  from sentence_count_le_total_count [of ?s "\<lambda>k. True" "''dog''" 0 ?s' "''dog dog. dog''" ?st] g h run t tok
  show ?thesis by simp
qed

lemma update_counts_eq:
  "update_counts cur e =
     e\<lparr>count_e := count_e e + 1,
       sentence_count := (if last_sentence_id e \<noteq> cur then sentence_count e + 1 else sentence_count e),
       last_sentence_id := cur\<rparr>"
  by (simp add: update_counts_def Let_def)

lemma dog_dog_dog:
  "index_stream (\<lambda>k. True) ''dog dog dog.'' =
     Inr \<lparr>hash_table = (\<lambda>i. [])(4318 := [\<lparr>word = ''dog'', count_e = 3, sentence_count = 1, last_sentence_id = 0\<rparr>]),
          buf = [], buf_cap = 64, total_words = 3, total_sentences = 1, current_sentence_id = 1, nalloc = 3\<rparr>"
  by (simp add: eval_defs)

lemma cats_cats_cats:
  "index_stream (\<lambda>k. True) ''Cats cats CATS.'' =
     Inr \<lparr>hash_table = (\<lambda>i. [])(1792 := [\<lparr>word = ''cats'', count_e = 3, sentence_count = 1, last_sentence_id = 0\<rparr>]),
          buf = [], buf_cap = 64, total_words = 3, total_sentences = 1, current_sentence_id = 1, nalloc = 3\<rparr>"
  by (simp add: eval_defs)

lemma table_entries_single:
  assumes "h < HASH_SIZE"
  shows "table_entries ((\<lambda>i. [])(h := es)) = es"
  using table_entries_sparse [where ks = "[h]" and ht = "(\<lambda>i. [])(h := es)"] assms by simp

text \<open>
  C4. A successful call of \<^verbatim>\<open>get_word_entry\<close> for \<open>w\<close> leaves as the entry of \<open>w\<close> the old
  one (a new one with zero counts and last sentence \<open>-1\<close> if there was none) with \<open>count\<close>
  increased by one, \<open>sentence_count\<close> increased by one only if the last sentence recorded
  differs from the current one, and the last sentence set to the current one. A second call in
  the same sentence leaves \<open>sentence_count\<close> as it is. The input \<open>dog dog dog.\<close> yields the single
  entry \<open>dog\<close> with counts 3 and 1, the input \<open>Cats cats CATS.\<close> the single entry \<open>cats\<close> with
  counts 3 and 1.
\<close>

theorem get_word_entry_counts:
  "(get_word_entry mem w cur s = Inr s' \<longrightarrow>
      (let e = (case lookup_word (hash_table s) w of
                  None \<Rightarrow> \<lparr>word = w, count_e = 0, sentence_count = 0, last_sentence_id = - 1\<rparr>
                | Some e0 \<Rightarrow> e0)
       in lookup_word (hash_table s') w =
            Some (e\<lparr>count_e := count_e e + 1,
                    sentence_count :=
                      (if last_sentence_id e \<noteq> cur then sentence_count e + 1 else sentence_count e),
                    last_sentence_id := cur\<rparr>))) \<and>
   (get_word_entry mem w cur s = Inr s' \<and> get_word_entry mem w cur s' = Inr s''
      \<longrightarrow> map_option sentence_count (lookup_word (hash_table s'') w) =
          map_option sentence_count (lookup_word (hash_table s') w) \<and>
          map_option count_e (lookup_word (hash_table s'') w) =
          map_option (\<lambda>e. count_e e + 1) (lookup_word (hash_table s') w)) \<and>
   (\<exists>st. index_stream (\<lambda>k. True) ''dog dog dog.'' = Inr st \<and>
      table_entries (hash_table st) =
        [\<lparr>word = ''dog'', count_e = 3, sentence_count = 1, last_sentence_id = 0\<rparr>]) \<and>
   (\<exists>st. index_stream (\<lambda>k. True) ''Cats cats CATS.'' = Inr st \<and>
      table_entries (hash_table st) =
        [\<lparr>word = ''cats'', count_e = 3, sentence_count = 1, last_sentence_id = 0\<rparr>])"
proof -
  have p1: "let e = (case lookup_word (hash_table s) w of
                  None \<Rightarrow> \<lparr>word = w, count_e = 0, sentence_count = 0, last_sentence_id = - 1\<rparr>
                | Some e0 \<Rightarrow> e0)
       in lookup_word (hash_table s') w =
            Some (e\<lparr>count_e := count_e e + 1,
                    sentence_count :=
                      (if last_sentence_id e \<noteq> cur then sentence_count e + 1 else sentence_count e),
                    last_sentence_id := cur\<rparr>)"
    if g: "get_word_entry mem w cur s = Inr s'"
    using get_word_entry_lookup_same [OF g] unfolding Let_def by (simp only: update_counts_eq)
  have p2: "map_option sentence_count (lookup_word (hash_table s'') w) =
          map_option sentence_count (lookup_word (hash_table s') w) \<and>
          map_option count_e (lookup_word (hash_table s'') w) =
          map_option (\<lambda>e. count_e e + 1) (lookup_word (hash_table s') w)"
    if a: "get_word_entry mem w cur s = Inr s' \<and> get_word_entry mem w cur s' = Inr s''"
  proof -
    from a have g1: "get_word_entry mem w cur s = Inr s'" and g2: "get_word_entry mem w cur s' = Inr s''"
      by simp_all
    from get_word_entry_lookup_same [OF g1] obtain e1 where
      l1: "lookup_word (hash_table s') w = Some e1" and last: "last_sentence_id e1 = cur"
      by (simp add: last_sentence_id_update_counts)
    from get_word_entry_lookup_same [OF g2] l1
    have l2: "lookup_word (hash_table s'') w = Some (update_counts cur e1)" by simp
    from l1 l2 last show ?thesis
      by (simp add: sentence_count_update_counts count_update_counts)
  qed
  have p3: "\<exists>st. index_stream (\<lambda>k. True) ''dog dog dog.'' = Inr st \<and>
      table_entries (hash_table st) =
        [\<lparr>word = ''dog'', count_e = 3, sentence_count = 1, last_sentence_id = 0\<rparr>]"
    by (simp add: dog_dog_dog table_entries_single HASH_SIZE_def)
  have p4: "\<exists>st. index_stream (\<lambda>k. True) ''Cats cats CATS.'' = Inr st \<and>
      table_entries (hash_table st) =
        [\<lparr>word = ''cats'', count_e = 3, sentence_count = 1, last_sentence_id = 0\<rparr>]"
    by (simp add: cats_cats_cats table_entries_single HASH_SIZE_def)
  from p1 p2 p3 p4 show ?thesis by blast
qed

theorem get_word_entry_counts_witness:
  "get_word_entry (\<lambda>k. True) ''cat'' 2
     \<lparr>hash_table = (\<lambda>i. []), buf = ''cat'', buf_cap = 64, total_words = 0,
      total_sentences = 2, current_sentence_id = 2, nalloc = 1\<rparr>
   = Inr \<lparr>hash_table = (\<lambda>i. [])(2780 := [\<lparr>word = ''cat'', count_e = 1, sentence_count = 1, last_sentence_id = 2\<rparr>]),
      buf = ''cat'', buf_cap = 64, total_words = 0, total_sentences = 2, current_sentence_id = 2, nalloc = 3\<rparr> \<and>
   get_word_entry (\<lambda>k. True) ''cat'' 2
     \<lparr>hash_table = (\<lambda>i. [])(2780 := [\<lparr>word = ''cat'', count_e = 1, sentence_count = 1, last_sentence_id = 2\<rparr>]),
      buf = ''cat'', buf_cap = 64, total_words = 0, total_sentences = 2, current_sentence_id = 2, nalloc = 3\<rparr>
   = Inr \<lparr>hash_table = (\<lambda>i. [])(2780 := [\<lparr>word = ''cat'', count_e = 2, sentence_count = 1, last_sentence_id = 2\<rparr>]),
      buf = ''cat'', buf_cap = 64, total_words = 0, total_sentences = 2, current_sentence_id = 2, nalloc = 3\<rparr> \<and>
   lookup_word ((\<lambda>i. [])(2780 := [\<lparr>word = ''cat'', count_e = 1, sentence_count = 1, last_sentence_id = 2\<rparr>])) ''cat''
     = Some \<lparr>word = ''cat'', count_e = 1, sentence_count = 1, last_sentence_id = 2\<rparr> \<and>
   map_option sentence_count
     (lookup_word ((\<lambda>i. [])(2780 := [\<lparr>word = ''cat'', count_e = 2, sentence_count = 1, last_sentence_id = 2\<rparr>])) ''cat'')
     = Some 1"
proof -
  let ?s = "\<lparr>hash_table = (\<lambda>i. []), buf = ''cat'', buf_cap = 64, total_words = 0,
      total_sentences = 2, current_sentence_id = 2, nalloc = 1\<rparr>"
  let ?s' = "\<lparr>hash_table = (\<lambda>i. [])(2780 := [\<lparr>word = ''cat'', count_e = 1, sentence_count = 1, last_sentence_id = 2\<rparr>]),
      buf = ''cat'', buf_cap = 64, total_words = 0, total_sentences = 2, current_sentence_id = 2, nalloc = 3\<rparr>"
  let ?s'' = "\<lparr>hash_table = (\<lambda>i. [])(2780 := [\<lparr>word = ''cat'', count_e = 2, sentence_count = 1, last_sentence_id = 2\<rparr>]),
      buf = ''cat'', buf_cap = 64, total_words = 0, total_sentences = 2, current_sentence_id = 2, nalloc = 3\<rparr>"
  have g1: "get_word_entry (\<lambda>k. True) ''cat'' 2 ?s = Inr ?s'"
    by (simp add: get_word_entry_def update_counts_def hash_values)
  have g2: "get_word_entry (\<lambda>k. True) ''cat'' 2 ?s' = Inr ?s''"
    by (simp add: get_word_entry_def update_counts_def hash_values)
  have l0: "lookup_word (hash_table ?s) ''cat'' = None"
    by (simp add: lookup_word_def)
  from get_word_entry_counts [of "\<lambda>k. True" "''cat''" 2 ?s ?s' ?s''] g1 g2 l0
  show ?thesis by simp
qed

subsection \<open>Sentences and words counted\<close>

lemma hello_world:
  "index_stream (\<lambda>k. True) ''hello world'' =
     Inr \<lparr>hash_table = (\<lambda>i. [])
            (9380 := [\<lparr>word = ''hello'', count_e = 1, sentence_count = 1, last_sentence_id = 0\<rparr>],
             1383 := [\<lparr>word = ''world'', count_e = 1, sentence_count = 1, last_sentence_id = 0\<rparr>]),
          buf = [], buf_cap = 64, total_words = 2, total_sentences = 1, current_sentence_id = 0, nalloc = 5\<rparr>"
  by (simp add: eval_defs)

text \<open>
  C5. After a run, \<open>total_sentences\<close> is the number of the bytes \<open>.\<close>, \<open>!\<close> and \<open>?\<close> of the
  input, each counted, except that it is 1 when the input has no such byte and at least one word
  (\<open>total_words\<close>, the number of words of the text, is positive). The input \<open>hello world\<close> gives
  \<open>total_sentences = 1\<close>.
\<close>

theorem total_sentences_counts_terminators:
  "(index_stream mem input = Inr st \<longrightarrow>
      total_words st = int (length (tokens input)) \<and>
      total_sentences st =
        (if length (filter is_terminator input) = 0 \<and> 0 < total_words st then 1
         else int (length (filter is_terminator input)))) \<and>
   (\<exists>st. index_stream (\<lambda>k. True) ''hello world'' = Inr st \<and> total_sentences st = 1)"
proof -
  have p1: "total_words st = int (length (tokens input)) \<and>
      total_sentences st =
        (if length (filter is_terminator input) = 0 \<and> 0 < total_words st then 1
         else int (length (filter is_terminator input)))"
    if run: "index_stream mem input = Inr st"
    using index_stream_tokens(2) [OF run] index_stream_sentences [OF run] by simp
  have p2: "\<exists>st. index_stream (\<lambda>k. True) ''hello world'' = Inr st \<and> total_sentences st = 1"
    by (simp add: hello_world)
  from p1 p2 show ?thesis by blast
qed

theorem total_sentences_counts_terminators_witness:
  "index_stream (\<lambda>k. True) ''Hi!? no..''
     = Inr \<lparr>hash_table = (\<lambda>i. [])
              (hash_word ''hi'' := [\<lparr>word = ''hi'', count_e = 1, sentence_count = 1, last_sentence_id = 0\<rparr>],
               hash_word ''no'' := [\<lparr>word = ''no'', count_e = 1, sentence_count = 1, last_sentence_id = 2\<rparr>]),
            buf = [], buf_cap = 64, total_words = 2, total_sentences = 4, current_sentence_id = 4, nalloc = 5\<rparr> \<and>
   tokens ''Hi!? no..'' = [''hi'', ''no''] \<and>
   filter is_terminator ''Hi!? no..'' = ''!?..''"
proof -
  let ?st = "\<lparr>hash_table = (\<lambda>i. [])
              (hash_word ''hi'' := [\<lparr>word = ''hi'', count_e = 1, sentence_count = 1, last_sentence_id = 0\<rparr>],
               hash_word ''no'' := [\<lparr>word = ''no'', count_e = 1, sentence_count = 1, last_sentence_id = 2\<rparr>]),
            buf = [], buf_cap = 64, total_words = 2, total_sentences = 4, current_sentence_id = 4, nalloc = 5\<rparr>"
  have h: "hash_word ''hi'' = 9351" "hash_word ''no'' = 9555"
    by (simp_all add: hash_word_def HASH_SIZE_def)
  have run: "index_stream (\<lambda>k. True) ''Hi!? no..'' = Inr ?st"
    by (simp add: eval_defs h)
  have tok: "tokens ''Hi!? no..'' = [''hi'', ''no'']"
    by (simp add: tokens_def isalnum_def tolower_other tolower_upper)
  have f: "filter is_terminator ''Hi!? no..'' = ''!?..''"
    by (simp add: is_terminator_def)
  from total_sentences_counts_terminators [of "\<lambda>k. True" "''Hi!? no..''" ?st] run tok f
  show ?thesis by simp
qed

lemma flush_word_lookup:
  assumes f: "flush_word mem s = Inr s'" and ne: "buf s \<noteq> []"
  shows "total_words s' = total_words s + 1"
    and "sum_list (map count_e (table_entries (hash_table s'))) =
         sum_list (map count_e (table_entries (hash_table s))) + 1"
    and "w \<noteq> buf s \<Longrightarrow> lookup_word (hash_table s') w = lookup_word (hash_table s) w"
    and "map_option count_e (lookup_word (hash_table s') (buf s)) =
         Some (case lookup_word (hash_table s) (buf s) of None \<Rightarrow> 1 | Some e \<Rightarrow> count_e e + 1)"
proof -
  from flush_word_cases [OF f] ne obtain s1
    where g: "get_word_entry mem (buf s) (current_sentence_id s) s = Inr s1"
      and s': "s' = s1\<lparr>total_words := total_words s1 + 1, buf := []\<rparr>" by blast
  from s' get_word_entry_frame(3) [OF g] show "total_words s' = total_words s + 1" by simp
  from s' get_word_entry_sum [OF g]
  show "sum_list (map count_e (table_entries (hash_table s'))) =
         sum_list (map count_e (table_entries (hash_table s))) + 1" by simp
  from s' get_word_entry_lookup_other [OF g]
  show "w \<noteq> buf s \<Longrightarrow> lookup_word (hash_table s') w = lookup_word (hash_table s) w" by simp
  from s' get_word_entry_lookup_same [OF g]
  show "map_option count_e (lookup_word (hash_table s') (buf s)) =
         Some (case lookup_word (hash_table s) (buf s) of None \<Rightarrow> 1 | Some e \<Rightarrow> count_e e + 1)"
    by (simp add: count_update_counts split: option.splits)
qed

text \<open>
  C9. After a run, \<open>total_words\<close> is the sum of \<open>count\<close> over all entries of the table, so no
  entry has a \<open>count\<close> above \<open>total_words\<close>. Every word emitted (a flush of a non-empty buffer)
  adds one to \<open>total_words\<close> and one to the \<open>count\<close> of the entry of that word, and leaves the
  entries of all other words as they are.
\<close>

theorem total_words_is_sum_of_counts:
  "(index_stream mem input = Inr st \<longrightarrow>
      total_words st = sum_list (map count_e (table_entries (hash_table st))) \<and>
      (\<forall>e\<in>set (table_entries (hash_table st)). count_e e \<le> total_words st)) \<and>
   (flush_word mem s = Inr s' \<and> buf s \<noteq> [] \<longrightarrow>
      total_words s' = total_words s + 1 \<and>
      sum_list (map count_e (table_entries (hash_table s'))) =
        sum_list (map count_e (table_entries (hash_table s))) + 1 \<and>
      map_option count_e (lookup_word (hash_table s') (buf s)) =
        Some (case lookup_word (hash_table s) (buf s) of None \<Rightarrow> 1 | Some e \<Rightarrow> count_e e + 1) \<and>
      (\<forall>w. w \<noteq> buf s \<longrightarrow> lookup_word (hash_table s') w = lookup_word (hash_table s) w))"
proof -
  have p1: "total_words st = sum_list (map count_e (table_entries (hash_table st))) \<and>
      (\<forall>e\<in>set (table_entries (hash_table st)). count_e e \<le> total_words st)"
    if run: "index_stream mem input = Inr st"
    using index_stream_sum [OF run] index_stream_bounded [OF run] by simp
  have p2: "total_words s' = total_words s + 1 \<and>
      sum_list (map count_e (table_entries (hash_table s'))) =
        sum_list (map count_e (table_entries (hash_table s))) + 1 \<and>
      map_option count_e (lookup_word (hash_table s') (buf s)) =
        Some (case lookup_word (hash_table s) (buf s) of None \<Rightarrow> 1 | Some e \<Rightarrow> count_e e + 1) \<and>
      (\<forall>w. w \<noteq> buf s \<longrightarrow> lookup_word (hash_table s') w = lookup_word (hash_table s) w)"
    if a: "flush_word mem s = Inr s' \<and> buf s \<noteq> []"
  proof -
    from a have f: "flush_word mem s = Inr s'" and ne: "buf s \<noteq> []" by simp_all
    from flush_word_lookup [OF f ne] show ?thesis by simp
  qed
  from p1 p2 show ?thesis by blast
qed

theorem total_words_is_sum_of_counts_witness:
  "index_stream (\<lambda>k. True) ''hello world'' =
     Inr \<lparr>hash_table = (\<lambda>i. [])
            (9380 := [\<lparr>word = ''hello'', count_e = 1, sentence_count = 1, last_sentence_id = 0\<rparr>],
             1383 := [\<lparr>word = ''world'', count_e = 1, sentence_count = 1, last_sentence_id = 0\<rparr>]),
          buf = [], buf_cap = 64, total_words = 2, total_sentences = 1, current_sentence_id = 0, nalloc = 5\<rparr> \<and>
   (2::int) = sum_list (map count_e
       [\<lparr>word = ''world'', count_e = 1, sentence_count = 1, last_sentence_id = 0\<rparr>,
        \<lparr>word = ''hello'', count_e = 1, sentence_count = 1, last_sentence_id = 0\<rparr>]) \<and>
   count_e \<lparr>word = ''world'', count_e = 1, sentence_count = 1, last_sentence_id = 0\<rparr> \<le> (2::int) \<and>
   flush_word (\<lambda>k. True)
     \<lparr>hash_table = (\<lambda>i. [])(9380 := [\<lparr>word = ''hello'', count_e = 1, sentence_count = 1, last_sentence_id = 0\<rparr>]),
      buf = ''world'', buf_cap = 64, total_words = 1, total_sentences = 0, current_sentence_id = 0, nalloc = 3\<rparr>
   = Inr \<lparr>hash_table = (\<lambda>i. [])
            (9380 := [\<lparr>word = ''hello'', count_e = 1, sentence_count = 1, last_sentence_id = 0\<rparr>],
             1383 := [\<lparr>word = ''world'', count_e = 1, sentence_count = 1, last_sentence_id = 0\<rparr>]),
          buf = [], buf_cap = 64, total_words = 2, total_sentences = 0, current_sentence_id = 0, nalloc = 5\<rparr> \<and>
   ''world'' \<noteq> []"
proof -
  let ?T = "(\<lambda>i. [])
            (9380 := [\<lparr>word = ''hello'', count_e = 1, sentence_count = 1, last_sentence_id = 0\<rparr>],
             1383 := [\<lparr>word = ''world'', count_e = 1, sentence_count = 1, last_sentence_id = 0\<rparr>])"
  let ?st = "\<lparr>hash_table = ?T,
          buf = [], buf_cap = 64, total_words = 2, total_sentences = 1, current_sentence_id = 0, nalloc = 5\<rparr>"
  let ?s = "\<lparr>hash_table = (\<lambda>i. [])(9380 := [\<lparr>word = ''hello'', count_e = 1, sentence_count = 1, last_sentence_id = 0\<rparr>]),
      buf = ''world'', buf_cap = 64, total_words = 1, total_sentences = 0, current_sentence_id = 0, nalloc = 3\<rparr>"
  let ?s' = "\<lparr>hash_table = ?T,
          buf = [], buf_cap = 64, total_words = 2, total_sentences = 0, current_sentence_id = 0, nalloc = 5\<rparr>"
  have t: "table_entries ?T =
       [\<lparr>word = ''world'', count_e = 1, sentence_count = 1, last_sentence_id = 0\<rparr>,
        \<lparr>word = ''hello'', count_e = 1, sentence_count = 1, last_sentence_id = 0\<rparr>]"
    by (simp add: table_entries_sparse [where ks = "[1383, 9380]"] HASH_SIZE_def)
  have f: "flush_word (\<lambda>k. True) ?s = Inr ?s'"
    by (simp add: flush_word_def get_word_entry_def update_counts_def hash_values)
  from total_words_is_sum_of_counts [of "\<lambda>k. True" "''hello world''" ?st ?s ?s'] hello_world t f
  show ?thesis by simp
qed

subsection \<open>The whole run\<close>

lemma rank_words_Inr:
  assumes "rank_words env topic st = Inr (te, top4)"
  shows "te = lookup_word (hash_table st) (map tolower topic)"
    and "top4 = take 4 (filter (eligible te)
                 (qsort env cmp_wordptr_count (table_entries (hash_table st))))"
proof -
  from assms obtain array n where c: "collect (malloc_ok env) (hash_table st) (nalloc st) = Inr (array, n)"
    and r: "(if \<not> malloc_ok env n then Inl OutOfMemory
          else
            let topic_lc = map tolower topic;
                topic_entry = find (\<lambda>e. word e = topic_lc) (hash_table st (hash_word topic_lc))
            in Inr (topic_entry, gather_top4 topic_entry (qsort env cmp_wordptr_count array) []))
          = Inr (te, top4)"
    by (auto simp: rank_words_def Let_def split: sum.splits prod.splits)
  from collect_Inr [OF c] have a: "array = table_entries (hash_table st)" by simp
  from r have ok: "malloc_ok env n" by (simp split: if_splits)
  with r a show "te = lookup_word (hash_table st) (map tolower topic)"
    by (simp add: Let_def lookup_word_def)
  with r a ok show "top4 = take 4 (filter (eligible te)
                 (qsort env cmp_wordptr_count (table_entries (hash_table st))))"
    by (simp add: Let_def lookup_word_def gather_top4_eq)
qed

lemma rank_words_Inl:
  assumes "rank_words env topic st = Inl err"
  shows "err = OutOfMemory \<and> (\<exists>k. \<not> malloc_ok env k)"
proof (cases "collect (malloc_ok env) (hash_table st) (nalloc st)")
  case (Inl e)
  with assms have "e = err" by (simp add: rank_words_def)
  with Inl collect_Inl show ?thesis by blast
next
  case (Inr a)
  with assms show ?thesis
    by (auto simp: rank_words_def Let_def split: prod.splits if_splits)
qed

lemma main_Inr:
  assumes "main env argv = Inr rep"
  obtains input st te top4 where "2 \<le> length argv" "open_input env argv = Inr input"
    "index_stream (malloc_ok env) input = Inr st"
    "rank_words env (argv ! 1) st = Inr (te, top4)"
    "rep = print_report (argv ! 1) st te top4"
  using assms by (auto simp: main_def split: if_splits sum.splits prod.splits)

lemma open_input_Inl:
  assumes "open_input env argv = Inl err"
  shows "err = FopenFailed \<and> 3 \<le> length argv \<and> fopen env (argv ! 2) = None"
  using assms by (auto simp: open_input_def split: if_splits option.splits)

lemma main_Inl:
  assumes "main env argv = Inl err"
  shows "(err = UsageError \<and> length argv < 2) \<or>
         (err = FopenFailed \<and> 3 \<le> length argv \<and> fopen env (argv ! 2) = None) \<or>
         (err = OutOfMemory \<and> 2 \<le> length argv \<and> (\<exists>input. open_input env argv = Inr input) \<and>
            (\<exists>k. \<not> malloc_ok env k))"
proof (cases "length argv < 2")
  case True
  with assms show ?thesis by (simp add: main_def)
next
  case False
  show ?thesis
  proof (cases "open_input env argv")
    case (Inl e)
    with assms False have "e = err" by (simp add: main_def)
    with Inl open_input_Inl show ?thesis by blast
  next
    case input: (Inr input)
    show ?thesis
    proof (cases "index_stream (malloc_ok env) input")
      case (Inl e)
      with assms False input have "e = err" by (simp add: main_def)
      with Inl index_stream_Inl [of "malloc_ok env" input err] False input show ?thesis by auto
    next
      case st: (Inr st)
      show ?thesis
      proof (cases "rank_words env (argv ! 1) st")
        case (Inl e)
        with assms False input st have "e = err" by (simp add: main_def)
        with Inl rank_words_Inl [of env "argv ! 1" st err] False input show ?thesis by auto
      next
        case (Inr r)
        with assms False input st show ?thesis by (simp add: main_def split: prod.splits)
      qed
    qed
  qed
qed

lemma main_ok:
  assumes args: "2 \<le> length argv" and inp: "open_input env argv = Inr input"
    and mem: "\<forall>k. malloc_ok env k"
  obtains st te top4 where "index_stream (malloc_ok env) input = Inr st"
    "rank_words env (argv ! 1) st = Inr (te, top4)"
    "main env argv = Inr (print_report (argv ! 1) st te top4)"
proof (cases "main env argv")
  case (Inl err)
  from main_Inl [OF this] args mem
  have "err = FopenFailed \<and> 3 \<le> length argv \<and> fopen env (argv ! 2) = None" by auto
  with inp have False by (simp add: open_input_def)
  then show ?thesis ..
next
  case (Inr rep)
  from Inr obtain input' st te top4 where "open_input env argv = Inr input'"
    "index_stream (malloc_ok env) input' = Inr st"
    "rank_words env (argv ! 1) st = Inr (te, top4)"
    "rep = print_report (argv ! 1) st te top4"
    by (rule main_Inr)
  with inp Inr that show ?thesis by simp
qed

lemma all_ok_mem: "(\<forall>k. mem k) \<Longrightarrow> mem = (\<lambda>k. True)"
  by auto

subsection \<open>Which allocation requests a run makes\<close>

lemma granted_empty: "granted mem a a"
  by (auto simp: granted_def)

lemma granted_one: "granted mem a (Suc a) = mem a"
  by (auto simp: granted_def less_Suc_eq_le)

lemma granted_split:
  assumes "a \<le> b" and "b \<le> c"
  shows "granted mem a c = (granted mem a b \<and> granted mem b c)"
  using assms by (auto simp: granted_def) (meson leI)

lemma granted_two: "granted mem a (Suc (Suc a)) = (mem a \<and> mem (Suc a))"
  using granted_split [of a "Suc a" "Suc (Suc a)" mem] granted_one [of mem a] granted_one [of mem "Suc a"]
  by simp

lemma get_word_entry_granted:
  assumes "get_word_entry (\<lambda>k. True) w cur s = Inr s'"
  shows "get_word_entry mem w cur s =
     (if granted mem (nalloc s) (nalloc s') then Inr s' else Inl OutOfMemory)"
proof (cases "find (\<lambda>e. word e = w) (hash_table s (hash_word w))")
  case None
  with assms have "nalloc s' = nalloc s + 2"
    by (auto simp: get_word_entry_def Let_def)
  with assms None show ?thesis
    by (auto simp: get_word_entry_def Let_def granted_two)
next
  case (Some a)
  with assms have "nalloc s' = nalloc s"
    by (auto simp: get_word_entry_def Let_def)
  with assms Some show ?thesis
    by (auto simp: get_word_entry_def Let_def granted_empty)
qed

lemma flush_word_nalloc:
  assumes "flush_word mem s = Inr s'"
  shows "nalloc s \<le> nalloc s'"
  using flush_word_cases [OF assms] get_word_entry_nalloc [of mem "buf s" "current_sentence_id s" s]
  by auto

lemma flush_word_granted:
  assumes f: "flush_word (\<lambda>k. True) s = Inr s'"
  shows "flush_word mem s = (if granted mem (nalloc s) (nalloc s') then Inr s' else Inl OutOfMemory)"
  using flush_word_cases [OF f]
proof
  assume "buf s = [] \<and> s' = s"
  then show ?thesis by (simp add: flush_word_def granted_empty)
next
  assume "buf s \<noteq> [] \<and> (\<exists>s1. get_word_entry (\<lambda>k. True) (buf s) (current_sentence_id s) s = Inr s1 \<and>
             s' = s1\<lparr>total_words := total_words s1 + 1, buf := []\<rparr>)"
  then obtain s1 where ne: "buf s \<noteq> []"
    and g: "get_word_entry (\<lambda>k. True) (buf s) (current_sentence_id s) s = Inr s1"
    and s': "s' = s1\<lparr>total_words := total_words s1 + 1, buf := []\<rparr>" by blast
  from get_word_entry_granted [OF g, of mem] ne s' show ?thesis
    by (simp add: flush_word_def)
qed

lemma read_char_nalloc:
  assumes "read_char mem c s = Inr s'"
  shows "nalloc s \<le> nalloc s'"
proof (cases "isalnum c")
  case True
  with assms show ?thesis by (auto simp: read_char_def split: if_splits)
next
  case False
  with assms obtain s1 where f: "flush_word mem s = Inr s1" and "nalloc s' = nalloc s1"
    by (auto simp: read_char_def split: if_splits sum.splits)
  with flush_word_nalloc [OF f] show ?thesis by simp
qed

lemma read_char_granted:
  assumes rc: "read_char (\<lambda>k. True) c s = Inr s'"
  shows "read_char mem c s = (if granted mem (nalloc s) (nalloc s') then Inr s' else Inl OutOfMemory)"
proof (cases "isalnum c")
  case True
  show ?thesis
  proof (cases "length (buf s) + 1 \<ge> buf_cap s")
    case grow: True
    with rc True have "nalloc s' = Suc (nalloc s)" by (auto simp: read_char_def)
    with rc True grow show ?thesis by (auto simp: read_char_def granted_one)
  next
    case keep: False
    with rc True have "nalloc s' = nalloc s" by (auto simp: read_char_def)
    with rc True keep show ?thesis by (auto simp: read_char_def granted_empty)
  qed
next
  case False
  with rc obtain s1 where f: "flush_word (\<lambda>k. True) s = Inr s1"
    and s': "s' = (if is_terminator c
                    then s1\<lparr>total_sentences := total_sentences s1 + 1,
                            current_sentence_id := total_sentences s1 + 1\<rparr>
                    else s1)"
    by (auto simp: read_char_def split: sum.splits)
  from s' have "nalloc s' = nalloc s1" by simp
  with flush_word_granted [OF f, of mem] False s' show ?thesis
    by (simp add: read_char_def)
qed

lemma read_loop_nalloc:
  "read_loop mem cs s = Inr s' \<Longrightarrow> nalloc s \<le> nalloc s'"
proof (induction cs arbitrary: s)
  case Nil
  then show ?case by simp
next
  case (Cons c cs)
  from Cons.prems obtain s1 where rc: "read_char mem c s = Inr s1"
    and rl: "read_loop mem cs s1 = Inr s'"
    by (auto split: sum.splits)
  from read_char_nalloc [OF rc] Cons.IH [OF rl] show ?case by simp
qed

lemma read_loop_granted:
  "read_loop (\<lambda>k. True) cs s = Inr s' \<Longrightarrow>
   read_loop mem cs s = (if granted mem (nalloc s) (nalloc s') then Inr s' else Inl OutOfMemory)"
proof (induction cs arbitrary: s)
  case Nil
  then show ?case by (simp add: granted_empty)
next
  case (Cons c cs)
  from Cons.prems obtain s1 where rc: "read_char (\<lambda>k. True) c s = Inr s1"
    and rl: "read_loop (\<lambda>k. True) cs s1 = Inr s'"
    by (auto split: sum.splits)
  from granted_split [OF read_char_nalloc [OF rc] read_loop_nalloc [OF rl], of mem]
    read_char_granted [OF rc, of mem] Cons.IH [OF rl]
  show ?case by simp
qed

lemma index_stream_granted:
  assumes run: "index_stream (\<lambda>k. True) input = Inr st"
  shows "index_stream mem input =
     (if granted mem 0 (nalloc st) then Inr st else Inl OutOfMemory)"
proof -
  from run obtain s0 s1 s2 where i: "init_state (\<lambda>k. True) = Inr s0"
    and l: "read_loop (\<lambda>k. True) input s0 = Inr s1" and f: "flush_word (\<lambda>k. True) s1 = Inr s2"
    and st: "st = (if total_sentences s2 = 0 \<and> total_words s2 > 0 then s2\<lparr>total_sentences := 1\<rparr> else s2)"
    by (rule index_stream_cases)
  from init_state_Inr [OF i] have n0: "nalloc s0 = 1" by simp
  have i': "init_state mem = (if granted mem 0 1 then Inr s0 else Inl OutOfMemory)"
    using init_state_Inr [OF i] granted_one [of mem 0] by (simp add: init_state_def)
  from st have n: "nalloc st = nalloc s2" by simp
  have le: "1 \<le> nalloc s1" "nalloc s1 \<le> nalloc s2"
    using read_loop_nalloc [OF l] flush_word_nalloc [OF f] n0 by simp_all
  have g: "granted mem 0 (nalloc s2) =
      (granted mem 0 1 \<and> granted mem 1 (nalloc s1) \<and> granted mem (nalloc s1) (nalloc s2))"
    using granted_split [of 0 1 "nalloc s2" mem] granted_split [OF le, of mem] le by simp
  from i' read_loop_granted [OF l, of mem] flush_word_granted [OF f, of mem] n0 st g n
  show ?thesis by (simp add: index_stream_def)
qed

lemma collect_chain_granted:
  "collect_chain mem es (array, n) =
     (if granted mem n (n + length es) then Inr (array @ es, n + length es) else Inl OutOfMemory)"
proof (induction es arbitrary: array n)
  case Nil
  show ?case by (simp add: granted_empty)
next
  case (Cons e es)
  from granted_split [of n "Suc n" "n + length (e # es)" mem] granted_one [of mem n]
  have "granted mem n (n + length (e # es)) = (mem n \<and> granted mem (Suc n) (Suc n + length es))"
    by simp
  with Cons.IH [of "array @ [e]" "Suc n"] show ?case by simp
qed

lemma collect_buckets_granted:
  "collect_buckets mem ht is (array, n) =
     (if granted mem n (n + length (concat (map ht is)))
      then Inr (array @ concat (map ht is), n + length (concat (map ht is)))
      else Inl OutOfMemory)"
proof (induction "is" arbitrary: array n)
  case Nil
  show ?case by (simp add: granted_empty)
next
  case (Cons i "is")
  from granted_split [of n "n + length (ht i)" "n + length (concat (map ht (i # is)))" mem]
  have "granted mem n (n + length (concat (map ht (i # is)))) =
     (granted mem n (n + length (ht i)) \<and>
      granted mem (n + length (ht i)) (n + length (ht i) + length (concat (map ht is))))"
    by (simp add: add.assoc)
  with Cons.IH [of "array @ ht i" "n + length (ht i)"] collect_chain_granted [of mem "ht i" array n]
  show ?case by (simp add: add.assoc)
qed

lemma rank_words_granted:
  "rank_words env topic st =
     (if granted (malloc_ok env) (nalloc st) (nalloc st + length (table_entries (hash_table st)) + 1)
      then Inr (lookup_word (hash_table st) (map tolower topic),
                take 4 (filter (eligible (lookup_word (hash_table st) (map tolower topic)))
                         (qsort env cmp_wordptr_count (table_entries (hash_table st)))))
      else Inl OutOfMemory)"
proof -
  let ?n = "nalloc st + length (table_entries (hash_table st))"
  have "granted (malloc_ok env) (nalloc st) (Suc ?n) =
     (granted (malloc_ok env) (nalloc st) ?n \<and> malloc_ok env ?n)"
    using granted_split [of "nalloc st" ?n "Suc ?n" "malloc_ok env"] granted_one [of "malloc_ok env" ?n]
    by simp
  then show ?thesis
    by (simp add: rank_words_def collect_def collect_buckets_granted table_entries_def Let_def
        lookup_word_def gather_top4_eq)
qed

lemma main_granted:
  assumes args: "2 \<le> length argv" and inp: "open_input env argv = Inr input"
    and run: "index_stream (\<lambda>k. True) input = Inr st"
  shows "main env argv =
     (if granted (malloc_ok env) 0 (nalloc st + length (table_entries (hash_table st)) + 1)
      then Inr (print_report (argv ! 1) st
                 (lookup_word (hash_table st) (map tolower (argv ! 1)))
                 (take 4 (filter (eligible (lookup_word (hash_table st) (map tolower (argv ! 1))))
                           (qsort env cmp_wordptr_count (table_entries (hash_table st))))))
      else Inl OutOfMemory)"
proof -
  have "granted (malloc_ok env) 0 (nalloc st + length (table_entries (hash_table st)) + 1) =
     (granted (malloc_ok env) 0 (nalloc st) \<and>
      granted (malloc_ok env) (nalloc st) (nalloc st + length (table_entries (hash_table st)) + 1))"
    by (rule granted_split) simp_all
  with args inp index_stream_granted [OF run, of "malloc_ok env"] rank_words_granted [of env "argv ! 1" st]
  show ?thesis by (simp add: main_def)
qed

subsection \<open>The exit status\<close>

lemma not_granted: "\<not> granted mem 0 n \<longleftrightarrow> (\<exists>k<n. \<not> mem k)"
  by (auto simp: granted_def)

text \<open>
  C7. The exit status is \<^verbatim>\<open>EXIT_SUCCESS\<close> (0) exactly when the run completes and writes its
  report, and differs from it exactly when the run ends with one of three errors. The usage error
  occurs exactly when the topic argument is missing, whatever the environment holds. The failure
  of \<^verbatim>\<open>fopen\<close> occurs exactly when a path is given and cannot be opened, whatever else the
  environment holds. The failure of an allocation occurs only with the arguments there and the
  input open, and then exactly when the allocator refuses one of the requests that the run makes:
  these are the first \<open>nalloc st + length (table_entries (hash_table st)) + 1\<close> requests, \<open>st\<close>
  being the state in which the reading of the same input ends when nothing is refused.
\<close>

theorem exit_status_cases:
  "(exit_status (main env argv) = 0 \<longleftrightarrow> (\<exists>rep. main env argv = Inr rep)) \<and>
   (exit_status (main env argv) \<noteq> 0 \<longleftrightarrow>
      main env argv = Inl UsageError \<or> main env argv = Inl FopenFailed \<or>
      main env argv = Inl OutOfMemory) \<and>
   (main env argv = Inl UsageError \<longleftrightarrow> length argv < 2) \<and>
   (main env argv = Inl FopenFailed \<longleftrightarrow> 3 \<le> length argv \<and> fopen env (argv ! 2) = None) \<and>
   (main env argv = Inl OutOfMemory \<longrightarrow>
      2 \<le> length argv \<and> (\<exists>input. open_input env argv = Inr input)) \<and>
   (2 \<le> length argv \<and> open_input env argv = Inr input \<longrightarrow>
      (\<exists>st. index_stream (\<lambda>k. True) input = Inr st \<and>
         (main env argv = Inl OutOfMemory \<longleftrightarrow>
            (\<exists>k < nalloc st + length (table_entries (hash_table st)) + 1. \<not> malloc_ok env k))))"
proof -
  have p1: "exit_status (main env argv) = 0 \<longleftrightarrow> (\<exists>rep. main env argv = Inr rep)"
    by (cases "main env argv") (simp_all add: exit_status_def EXIT_SUCCESS_def EXIT_FAILURE_def)
  have p2: "exit_status (main env argv) \<noteq> 0 \<longleftrightarrow>
      main env argv = Inl UsageError \<or> main env argv = Inl FopenFailed \<or>
      main env argv = Inl OutOfMemory"
  proof (cases "main env argv")
    case (Inl err)
    then show ?thesis
      by (cases err) (simp_all add: exit_status_def EXIT_SUCCESS_def EXIT_FAILURE_def)
  next
    case (Inr rep)
    then show ?thesis by (simp add: exit_status_def EXIT_SUCCESS_def)
  qed
  have p3: "main env argv = Inl UsageError \<longleftrightarrow> length argv < 2"
  proof
    assume "main env argv = Inl UsageError"
    from main_Inl [OF this] show "length argv < 2" by simp
  next
    assume "length argv < 2"
    then show "main env argv = Inl UsageError" by (simp add: main_def)
  qed
  have p4: "main env argv = Inl FopenFailed \<longleftrightarrow> 3 \<le> length argv \<and> fopen env (argv ! 2) = None"
  proof
    assume "main env argv = Inl FopenFailed"
    from main_Inl [OF this] show "3 \<le> length argv \<and> fopen env (argv ! 2) = None" by simp
  next
    assume "3 \<le> length argv \<and> fopen env (argv ! 2) = None"
    then show "main env argv = Inl FopenFailed" by (simp add: main_def open_input_def)
  qed
  have p5: "2 \<le> length argv \<and> (\<exists>input. open_input env argv = Inr input)"
    if "main env argv = Inl OutOfMemory"
    using main_Inl [OF that] by simp
  have p6: "\<exists>st. index_stream (\<lambda>k. True) input = Inr st \<and>
         (main env argv = Inl OutOfMemory \<longleftrightarrow>
            (\<exists>k < nalloc st + length (table_entries (hash_table st)) + 1. \<not> malloc_ok env k))"
    if a: "2 \<le> length argv \<and> open_input env argv = Inr input"
  proof -
    from index_stream_ok [of "\<lambda>k. True" input]
    obtain st where run: "index_stream (\<lambda>k. True) input = Inr st" by auto
    from a have args: "2 \<le> length argv" and inp: "open_input env argv = Inr input" by simp_all
    from main_granted [OF args inp run]
    have "main env argv = Inl OutOfMemory \<longleftrightarrow>
        \<not> granted (malloc_ok env) 0 (nalloc st + length (table_entries (hash_table st)) + 1)"
      by simp
    with run show ?thesis by (simp only: not_granted) blast
  qed
  from p1 p2 p3 p4 p5 p6 show ?thesis by blast
qed

lemma the_cat:
  "index_stream (\<lambda>k. True) ''The cat.'' =
     Inr \<lparr>hash_table = (\<lambda>i. [])
            (1495 := [\<lparr>word = ''the'', count_e = 1, sentence_count = 1, last_sentence_id = 0\<rparr>],
             2780 := [\<lparr>word = ''cat'', count_e = 1, sentence_count = 1, last_sentence_id = 0\<rparr>]),
          buf = [], buf_cap = 64, total_words = 2, total_sentences = 1, current_sentence_id = 1, nalloc = 5\<rparr>"
  by (simp add: eval_defs)

theorem exit_status_cases_witness:
  "length [''topic_index''] < (2::nat) \<and>
   main (run_env ''The cat.'') [''topic_index''] = Inl UsageError \<and>
   exit_status (main (run_env ''The cat.'') [''topic_index'']) \<noteq> 0 \<and>
   (3::nat) \<le> length [''topic_index'', ''cat'', ''notes.txt''] \<and>
   fopen (run_env ''The cat.'') ([''topic_index'', ''cat'', ''notes.txt''] ! 2) = None \<and>
   main (run_env ''The cat.'') [''topic_index'', ''cat'', ''notes.txt''] = Inl FopenFailed \<and>
   (2::nat) \<le> length [''topic_index'', ''cat''] \<and>
   open_input (run_env ''The cat.'') [''topic_index'', ''cat''] = Inr ''The cat.'' \<and>
   exit_status (main (run_env ''The cat.'') [''topic_index'', ''cat'']) = 0 \<and>
   open_input ((run_env ''The cat.'')\<lparr>malloc_ok := (\<lambda>k. k \<noteq> 2)\<rparr>) [''topic_index'', ''cat'']
     = Inr ''The cat.'' \<and>
   main ((run_env ''The cat.'')\<lparr>malloc_ok := (\<lambda>k. k \<noteq> 2)\<rparr>) [''topic_index'', ''cat'']
     = Inl OutOfMemory"
proof -
  let ?env = "run_env ''The cat.''"
  let ?bad = "(run_env ''The cat.'')\<lparr>malloc_ok := (\<lambda>k. k \<noteq> 2)\<rparr>"
  have o: "open_input ?env [''topic_index'', ''cat''] = Inr ''The cat.''"
    "open_input ?bad [''topic_index'', ''cat''] = Inr ''The cat.''"
    by (simp_all add: open_input_def run_env_def)
  have m: "\<forall>k. malloc_ok ?env k" "\<not> malloc_ok ?bad 2" by (simp_all add: run_env_def)
  have f: "fopen ?env ([''topic_index'', ''cat'', ''notes.txt''] ! 2) = None"
    by (simp add: run_env_def)
  from exit_status_cases [of ?env "[''topic_index'']"]
  have u: "main ?env [''topic_index''] = Inl UsageError" by simp
  from exit_status_cases [of ?env "[''topic_index'', ''cat'', ''notes.txt'']"] f
  have p: "main ?env [''topic_index'', ''cat'', ''notes.txt''] = Inl FopenFailed" by simp
  from exit_status_cases [of ?env "[''topic_index'', ''cat'']" "''The cat.''"] o(1) m(1)
  have s: "exit_status (main ?env [''topic_index'', ''cat'']) = 0" by auto
  from exit_status_cases [of ?bad "[''topic_index'', ''cat'']" "''The cat.''"] o(2)
  have "main ?bad [''topic_index'', ''cat''] = Inl OutOfMemory \<longleftrightarrow>
      (\<exists>k < 5 + length (table_entries ((\<lambda>i. [])
            (1495 := [\<lparr>word = ''the'', count_e = 1, sentence_count = 1, last_sentence_id = 0\<rparr>],
             2780 := [\<lparr>word = ''cat'', count_e = 1, sentence_count = 1, last_sentence_id = 0\<rparr>]))) + 1.
          \<not> malloc_ok ?bad k)"
    by (simp add: the_cat)
  moreover have "2 < 5 + length (table_entries ((\<lambda>i. [])
            (1495 := [\<lparr>word = ''the'', count_e = 1, sentence_count = 1, last_sentence_id = 0\<rparr>],
             2780 := [\<lparr>word = ''cat'', count_e = 1, sentence_count = 1, last_sentence_id = 0\<rparr>]))) + 1"
    by simp
  ultimately have b: "main ?bad [''topic_index'', ''cat''] = Inl OutOfMemory"
    using m(2) by blast
  from u p s b o f show ?thesis by (simp add: exit_status_def EXIT_FAILURE_def)
qed

subsection \<open>The empty input\<close>

lemma collect_buckets_empty: "collect_buckets mem (\<lambda>i. []) is a = Inr a"
proof (induction "is")
  case Nil
  show ?case by simp
next
  case (Cons i "is")
  then show ?case by (cases a) simp
qed

lemma index_stream_empty:
  assumes "mem 0"
  shows "index_stream mem [] =
     Inr \<lparr>hash_table = (\<lambda>i. []), buf = [], buf_cap = INITIAL_BUF_SIZE, total_words = 0,
          total_sentences = 0, current_sentence_id = 0, nalloc = 1\<rparr>"
  using assms by (simp add: index_stream_def init_state_def flush_word_def)

lemma qsort_contract_Nil:
  assumes "qsort_contract qs"
  shows "qs cmp_wordptr_count [] = []"
  using qsort_contractD(1) [OF assms, of "[]"] by simp

text \<open>
  C8. On the empty input, with any topic word, a run whose first two allocation requests (the
  buffer and the copy of the topic) are granted reports \<open>total_words = 0\<close> and
  \<open>total_sentences = 0\<close> and prints no row at all.
\<close>

theorem empty_input_report:
  "2 \<le> length argv \<and> open_input env argv = Inr [] \<and> malloc_ok env 0 \<and> malloc_ok env 1 \<and>
   qsort_contract (qsort env)
   \<longrightarrow> main env argv =
         Inr \<lparr>rep_topic = argv ! 1, rep_total_words = 0, rep_total_sentences = 0, rep_rows = []\<rparr>"
proof
  assume a: "2 \<le> length argv \<and> open_input env argv = Inr [] \<and> malloc_ok env 0 \<and> malloc_ok env 1 \<and>
   qsort_contract (qsort env)"
  then have q: "qsort env cmp_wordptr_count [] = []" by (simp add: qsort_contract_Nil)
  from a have i: "index_stream (malloc_ok env) [] =
     Inr \<lparr>hash_table = (\<lambda>i. []), buf = [], buf_cap = INITIAL_BUF_SIZE, total_words = 0,
          total_sentences = 0, current_sentence_id = 0, nalloc = 1\<rparr>"
    by (simp add: index_stream_empty)
  have r: "rank_words env (argv ! 1)
      \<lparr>hash_table = (\<lambda>i. []), buf = [], buf_cap = INITIAL_BUF_SIZE, total_words = 0,
          total_sentences = 0, current_sentence_id = 0, nalloc = 1\<rparr> = Inr (None, [])"
    using a q by (simp add: rank_words_def collect_def collect_buckets_empty)
  from a i r show "main env argv =
         Inr \<lparr>rep_topic = argv ! 1, rep_total_words = 0, rep_total_sentences = 0, rep_rows = []\<rparr>"
    by (simp add: main_def print_report_def PRINT_LINE_def)
qed

theorem empty_input_report_witness:
  "(2::nat) \<le> length [''topic_index'', ''Cat''] \<and>
   open_input (run_env []) [''topic_index'', ''Cat''] = Inr [] \<and>
   malloc_ok (run_env []) 0 \<and> malloc_ok (run_env []) 1 \<and> qsort_contract (qsort (run_env [])) \<and>
   main (run_env []) [''topic_index'', ''Cat''] =
     Inr \<lparr>rep_topic = ''Cat'', rep_total_words = 0, rep_total_sentences = 0, rep_rows = []\<rparr>"
proof -
  have h: "(2::nat) \<le> length [''topic_index'', ''Cat'']"
    "open_input (run_env []) [''topic_index'', ''Cat''] = Inr []"
    "malloc_ok (run_env []) 0" "malloc_ok (run_env []) 1" "qsort_contract (qsort (run_env []))"
    by (simp_all add: open_input_def run_env_def insertion_qsort_contract)
  with empty_input_report [of "[''topic_index'', ''Cat'']" "run_env []"] show ?thesis by simp
qed

subsection \<open>The selection of the top words\<close>

lemma lookup_word_Some:
  assumes "lookup_word ht w = Some e"
  shows "word e = w" and "e \<in> set (ht (hash_word w))"
  using assms by (auto simp: lookup_word_def find_Some_iff)

lemma lookup_word_None:
  assumes ok: "table_ok ht" and none: "lookup_word ht w = None"
  shows "w \<notin> word ` set (table_entries ht)"
proof
  assume "w \<in> word ` set (table_entries ht)"
  then obtain e where e: "e \<in> set (table_entries ht)" and w: "word e = w" by blast
  from e table_ok_entries [OF ok] obtain i where i: "e \<in> set (ht i)" by blast
  from table_okD(1) [OF ok i] w have "i = hash_word w" by simp
  with i w none show False by (auto simp: lookup_word_def find_None_iff)
qed

lemma lookup_word_in_table:
  assumes ok: "table_ok ht" and l: "lookup_word ht w = Some e"
  shows "e \<in> set (table_entries ht)"
  using lookup_word_Some(2) [OF l] table_ok_entries [OF ok] by blast

lemma sorted_split:
  assumes "sorted_wrt R xs" and "t \<in> set (take n xs)" and "e \<in> set xs" and "e \<notin> set (take n xs)"
  shows "R t e"
proof -
  from assms(3,4) have "e \<in> set (drop n xs)"
    using set_append [of "take n xs" "drop n xs"] by simp
  moreover from assms(1) have "sorted_wrt R (take n xs @ drop n xs)" by simp
  ultimately show ?thesis using assms(2) by (simp only: sorted_wrt_append)
qed

lemma top4_properties:
  assumes ok: "table_ok (hash_table st)" and qs: "qsort_contract (qsort env)"
    and r: "rank_words env topic st = Inr (te, top4)"
  shows "length top4 = min 4 (length (filter (eligible te) (table_entries (hash_table st))))"
    and "distinct (map word top4)"
    and "\<forall>e\<in>set top4. e \<in> set (table_entries (hash_table st)) \<and> Some e \<noteq> te \<and>
           word e \<noteq> map tolower topic \<and> \<not> is_stop_word (word e)"
    and "sorted_wrt (\<lambda>a b. count_e b \<le> count_e a) top4"
    and "\<forall>e\<in>set (table_entries (hash_table st)).
           e \<notin> set top4 \<and> Some e \<noteq> te \<and> \<not> is_stop_word (word e)
           \<longrightarrow> (\<forall>t\<in>set top4. count_e e \<le> count_e t)"
proof -
  let ?arr = "table_entries (hash_table st)"
  let ?S = "qsort env cmp_wordptr_count ?arr"
  let ?F = "filter (eligible te) ?S"
  let ?R = "\<lambda>a b. count_e b \<le> count_e a"
  have te: "te = lookup_word (hash_table st) (map tolower topic)"
    and top4: "top4 = take 4 ?F"
    using rank_words_Inr [OF r] by simp_all
  have ms: "mset ?S = mset ?arr" and sorted: "sorted_wrt ?R ?S"
    using qsort_contractD [OF qs] by simp_all
  have set_S: "set ?S = set ?arr" using ms by (rule mset_eq_setD)
  have "mset (map word ?S) = mset (map word ?arr)" using ms by (metis mset_map)
  then have dS: "distinct (map word ?S)"
    using distinct_words_table_entries [OF ok] mset_eq_imp_distinct_iff by blast
  have dF: "distinct (map word ?F)" using dS by (rule distinct_map_filter)
  have sF: "sorted_wrt ?R ?F" using sorted by (rule sorted_wrt_filter)
  have "mset ?F = mset (filter (eligible te) ?arr)" using ms by simp
  then have "length ?F = length (filter (eligible te) ?arr)" by (rule mset_eq_length)
  with top4 show "length top4 = min 4 (length (filter (eligible te) ?arr))" by simp
  have "map word top4 = take 4 (map word ?F)" using top4 by (simp add: take_map)
  with dF show "distinct (map word top4)" by simp
  have sub: "set top4 \<subseteq> set ?F" unfolding top4 by (rule set_take_subset)
  show "\<forall>e\<in>set top4. e \<in> set ?arr \<and> Some e \<noteq> te \<and>
           word e \<noteq> map tolower topic \<and> \<not> is_stop_word (word e)"
  proof
    fix e
    assume "e \<in> set top4"
    with sub set_S have e: "e \<in> set ?arr" "eligible te e" by auto
    have "word e \<noteq> map tolower topic"
    proof (cases te)
      case None
      with lookup_word_None [OF ok] te e(1) show ?thesis by force
    next
      case (Some t)
      with te lookup_word_Some [of "hash_table st" "map tolower topic" t]
        lookup_word_in_table [OF ok, of "map tolower topic" t]
      have t: "word t = map tolower topic" "t \<in> set ?arr" by simp_all
      from e(2) Some have "e \<noteq> t" by (simp add: eligible_def)
      with distinct_words_table_entries [OF ok] e(1) t(2) have "word e \<noteq> word t"
        by (auto simp: distinct_map inj_on_def)
      with t(1) show ?thesis by simp
    qed
    with e show "e \<in> set ?arr \<and> Some e \<noteq> te \<and>
           word e \<noteq> map tolower topic \<and> \<not> is_stop_word (word e)"
      by (simp add: eligible_def)
  qed
  from sF top4 show "sorted_wrt ?R top4" by simp
  show "\<forall>e\<in>set ?arr. e \<notin> set top4 \<and> Some e \<noteq> te \<and> \<not> is_stop_word (word e)
           \<longrightarrow> (\<forall>t\<in>set top4. count_e e \<le> count_e t)"
  proof (intro ballI impI)
    fix e t
    assume e: "e \<in> set ?arr" and a: "e \<notin> set top4 \<and> Some e \<noteq> te \<and> \<not> is_stop_word (word e)"
      and t: "t \<in> set top4"
    from e a set_S have "e \<in> set ?F" by (simp add: eligible_def)
    with sorted_split [OF sF, of t 4 e] t a top4 show "count_e e \<le> count_e t" by simp
  qed
qed

text \<open>
  C10. In every run that writes a report, with a \<^verbatim>\<open>qsort\<close> that keeps its contract, the rows
  after the topic row are those of the entries selected into \<^verbatim>\<open>top4\<close>, in the order of
  selection. There are four of them, or as many as there are entries that are neither the topic
  entry nor a stop word when these are fewer. The selected entries are pairwise distinct (even
  their words are), each is an entry of the table other than the topic entry, with a word that is
  neither the lower-cased topic nor a stop word, their counts do not increase along the
  selection, and every entry of the table that is not selected and is neither the topic entry nor
  a stop word has a count at most that of each selected entry.
\<close>

theorem top_others_selection:
  "main env argv = Inr rep \<and> qsort_contract (qsort env) \<longrightarrow>
   (\<exists>input st topic_entry top4.
      open_input env argv = Inr input \<and>
      index_stream (malloc_ok env) input = Inr st \<and>
      rank_words env (argv ! 1) st = Inr (topic_entry, top4) \<and>
      topic_entry = lookup_word (hash_table st) (map tolower (argv ! 1)) \<and>
      rep_rows rep =
        PRINT_LINE (total_words st) (total_sentences st) topic_entry
        @ concat (map (\<lambda>e. PRINT_LINE (total_words st) (total_sentences st) (Some e)) top4) \<and>
      length top4 = min 4 (length (filter (eligible topic_entry) (table_entries (hash_table st)))) \<and>
      distinct top4 \<and> distinct (map word top4) \<and>
      (\<forall>e\<in>set top4. e \<in> set (table_entries (hash_table st)) \<and> Some e \<noteq> topic_entry \<and>
           word e \<noteq> map tolower (argv ! 1) \<and> \<not> is_stop_word (word e)) \<and>
      sorted_wrt (\<lambda>a b. count_e b \<le> count_e a) top4 \<and>
      (\<forall>e\<in>set (table_entries (hash_table st)).
           e \<notin> set top4 \<and> Some e \<noteq> topic_entry \<and> \<not> is_stop_word (word e)
           \<longrightarrow> (\<forall>t\<in>set top4. count_e e \<le> count_e t)))"
proof
  assume a: "main env argv = Inr rep \<and> qsort_contract (qsort env)"
  then have qs: "qsort_contract (qsort env)" by simp
  from a obtain input st te top4 where inp: "open_input env argv = Inr input"
    and run: "index_stream (malloc_ok env) input = Inr st"
    and r: "rank_words env (argv ! 1) st = Inr (te, top4)"
    and rep: "rep = print_report (argv ! 1) st te top4"
    by (blast elim: main_Inr)
  have ok: "table_ok (hash_table st)" using run by (rule index_stream_table_ok)
  note p = top4_properties [OF ok qs r]
  from p(2) have d: "distinct top4" by (rule distinct_map [THEN iffD1, THEN conjunct1])
  have rows: "rep_rows rep =
        PRINT_LINE (total_words st) (total_sentences st) te
        @ concat (map (\<lambda>e. PRINT_LINE (total_words st) (total_sentences st) (Some e)) top4)"
    using rep by (simp add: print_report_def)
  from inp run r rank_words_Inr(1) [OF r] rows p d
  show "\<exists>input st topic_entry top4.
      open_input env argv = Inr input \<and>
      index_stream (malloc_ok env) input = Inr st \<and>
      rank_words env (argv ! 1) st = Inr (topic_entry, top4) \<and>
      topic_entry = lookup_word (hash_table st) (map tolower (argv ! 1)) \<and>
      rep_rows rep =
        PRINT_LINE (total_words st) (total_sentences st) topic_entry
        @ concat (map (\<lambda>e. PRINT_LINE (total_words st) (total_sentences st) (Some e)) top4) \<and>
      length top4 = min 4 (length (filter (eligible topic_entry) (table_entries (hash_table st)))) \<and>
      distinct top4 \<and> distinct (map word top4) \<and>
      (\<forall>e\<in>set top4. e \<in> set (table_entries (hash_table st)) \<and> Some e \<noteq> topic_entry \<and>
           word e \<noteq> map tolower (argv ! 1) \<and> \<not> is_stop_word (word e)) \<and>
      sorted_wrt (\<lambda>a b. count_e b \<le> count_e a) top4 \<and>
      (\<forall>e\<in>set (table_entries (hash_table st)).
           e \<notin> set top4 \<and> Some e \<noteq> topic_entry \<and> \<not> is_stop_word (word e)
           \<longrightarrow> (\<forall>t\<in>set top4. count_e e \<le> count_e t))"
    by blast
qed

text \<open>A run with a stop word of the highest count (\<open>the\<close>, 4), an upper-case topic (\<open>CAT\<close>), a
  tie between the topic word and \<open>dog\<close> (3 each), and six words that may be selected, of which
  four have the count 1: \<open>slept\<close> and \<open>hello\<close> are left out.\<close>

lemma many_words_index:
  "index_stream (\<lambda>k. True) ''The dog sat. The cat sat! the Cat, the CAT: dog dog ran slept hello world.'' =
     Inr \<lparr>hash_table = (\<lambda>i. [])
            (190 := [\<lparr>word = ''sat'', count_e = 2, sentence_count = 2, last_sentence_id = 1\<rparr>],
             1383 := [\<lparr>word = ''world'', count_e = 1, sentence_count = 1, last_sentence_id = 2\<rparr>],
             1495 := [\<lparr>word = ''the'', count_e = 4, sentence_count = 3, last_sentence_id = 2\<rparr>],
             2780 := [\<lparr>word = ''cat'', count_e = 3, sentence_count = 2, last_sentence_id = 2\<rparr>],
             4318 := [\<lparr>word = ''dog'', count_e = 3, sentence_count = 2, last_sentence_id = 2\<rparr>],
             9102 := [\<lparr>word = ''ran'', count_e = 1, sentence_count = 1, last_sentence_id = 2\<rparr>],
             9288 := [\<lparr>word = ''slept'', count_e = 1, sentence_count = 1, last_sentence_id = 2\<rparr>],
             9380 := [\<lparr>word = ''hello'', count_e = 1, sentence_count = 1, last_sentence_id = 2\<rparr>]),
          buf = [], buf_cap = 64, total_words = 16, total_sentences = 3, current_sentence_id = 3, nalloc = 17\<rparr>"
  by (simp add: eval_defs) (rule ext, simp)

lemma many_words_entries:
  "table_entries ((\<lambda>i. [])
            (190 := [\<lparr>word = ''sat'', count_e = 2, sentence_count = 2, last_sentence_id = 1\<rparr>],
             1383 := [\<lparr>word = ''world'', count_e = 1, sentence_count = 1, last_sentence_id = 2\<rparr>],
             1495 := [\<lparr>word = ''the'', count_e = 4, sentence_count = 3, last_sentence_id = 2\<rparr>],
             2780 := [\<lparr>word = ''cat'', count_e = 3, sentence_count = 2, last_sentence_id = 2\<rparr>],
             4318 := [\<lparr>word = ''dog'', count_e = 3, sentence_count = 2, last_sentence_id = 2\<rparr>],
             9102 := [\<lparr>word = ''ran'', count_e = 1, sentence_count = 1, last_sentence_id = 2\<rparr>],
             9288 := [\<lparr>word = ''slept'', count_e = 1, sentence_count = 1, last_sentence_id = 2\<rparr>],
             9380 := [\<lparr>word = ''hello'', count_e = 1, sentence_count = 1, last_sentence_id = 2\<rparr>]))
   = [\<lparr>word = ''sat'', count_e = 2, sentence_count = 2, last_sentence_id = 1\<rparr>,
        \<lparr>word = ''world'', count_e = 1, sentence_count = 1, last_sentence_id = 2\<rparr>,
        \<lparr>word = ''the'', count_e = 4, sentence_count = 3, last_sentence_id = 2\<rparr>,
        \<lparr>word = ''cat'', count_e = 3, sentence_count = 2, last_sentence_id = 2\<rparr>,
        \<lparr>word = ''dog'', count_e = 3, sentence_count = 2, last_sentence_id = 2\<rparr>,
        \<lparr>word = ''ran'', count_e = 1, sentence_count = 1, last_sentence_id = 2\<rparr>,
        \<lparr>word = ''slept'', count_e = 1, sentence_count = 1, last_sentence_id = 2\<rparr>,
        \<lparr>word = ''hello'', count_e = 1, sentence_count = 1, last_sentence_id = 2\<rparr>]"
  by (simp add: table_entries_sparse [where ks = "[190, 1383, 1495, 2780, 4318, 9102, 9288, 9380]"]
      HASH_SIZE_def)

lemma many_words_rank:
  "rank_words (run_env ''The dog sat. The cat sat! the Cat, the CAT: dog dog ran slept hello world.'') ''CAT''
     \<lparr>hash_table = (\<lambda>i. [])
            (190 := [\<lparr>word = ''sat'', count_e = 2, sentence_count = 2, last_sentence_id = 1\<rparr>],
             1383 := [\<lparr>word = ''world'', count_e = 1, sentence_count = 1, last_sentence_id = 2\<rparr>],
             1495 := [\<lparr>word = ''the'', count_e = 4, sentence_count = 3, last_sentence_id = 2\<rparr>],
             2780 := [\<lparr>word = ''cat'', count_e = 3, sentence_count = 2, last_sentence_id = 2\<rparr>],
             4318 := [\<lparr>word = ''dog'', count_e = 3, sentence_count = 2, last_sentence_id = 2\<rparr>],
             9102 := [\<lparr>word = ''ran'', count_e = 1, sentence_count = 1, last_sentence_id = 2\<rparr>],
             9288 := [\<lparr>word = ''slept'', count_e = 1, sentence_count = 1, last_sentence_id = 2\<rparr>],
             9380 := [\<lparr>word = ''hello'', count_e = 1, sentence_count = 1, last_sentence_id = 2\<rparr>]),
          buf = [], buf_cap = 64, total_words = 16, total_sentences = 3, current_sentence_id = 3, nalloc = 17\<rparr>
   = Inr (Some \<lparr>word = ''cat'', count_e = 3, sentence_count = 2, last_sentence_id = 2\<rparr>,
       [\<lparr>word = ''dog'', count_e = 3, sentence_count = 2, last_sentence_id = 2\<rparr>,
        \<lparr>word = ''sat'', count_e = 2, sentence_count = 2, last_sentence_id = 1\<rparr>,
        \<lparr>word = ''world'', count_e = 1, sentence_count = 1, last_sentence_id = 2\<rparr>,
        \<lparr>word = ''ran'', count_e = 1, sentence_count = 1, last_sentence_id = 2\<rparr>])"
  by (simp add: run_env_def collect_ok many_words_entries eval_rank hash_values Let_def
      tolower_upper tolower_other)

lemma many_words_main:
  "main (run_env ''The dog sat. The cat sat! the Cat, the CAT: dog dog ran slept hello world.'') [''topic_index'', ''CAT''] =
     Inr \<lparr>rep_topic = ''CAT'', rep_total_words = 16, rep_total_sentences = 3,
          rep_rows =
            [\<lparr>row_word = ''cat'', row_count = 3, row_pct_w = 300 / 16, row_sentence_count = 2,
              row_total_sentences = 3, row_pct_s = 200 / 3\<rparr>,
             \<lparr>row_word = ''dog'', row_count = 3, row_pct_w = 300 / 16, row_sentence_count = 2,
              row_total_sentences = 3, row_pct_s = 200 / 3\<rparr>,
             \<lparr>row_word = ''sat'', row_count = 2, row_pct_w = 200 / 16, row_sentence_count = 2,
              row_total_sentences = 3, row_pct_s = 200 / 3\<rparr>,
             \<lparr>row_word = ''world'', row_count = 1, row_pct_w = 100 / 16, row_sentence_count = 1,
              row_total_sentences = 3, row_pct_s = 100 / 3\<rparr>,
             \<lparr>row_word = ''ran'', row_count = 1, row_pct_w = 100 / 16, row_sentence_count = 1,
              row_total_sentences = 3, row_pct_s = 100 / 3\<rparr>]\<rparr>"
proof -
  have o: "open_input (run_env ''The dog sat. The cat sat! the Cat, the CAT: dog dog ran slept hello world.'') [''topic_index'', ''CAT''] = Inr ''The dog sat. The cat sat! the Cat, the CAT: dog dog ran slept hello world.''"
    by (simp add: open_input_def run_env_def)
  have i: "index_stream (malloc_ok (run_env ''The dog sat. The cat sat! the Cat, the CAT: dog dog ran slept hello world.'')) ''The dog sat. The cat sat! the Cat, the CAT: dog dog ran slept hello world.'' =
     Inr \<lparr>hash_table = (\<lambda>i. [])
            (190 := [\<lparr>word = ''sat'', count_e = 2, sentence_count = 2, last_sentence_id = 1\<rparr>],
             1383 := [\<lparr>word = ''world'', count_e = 1, sentence_count = 1, last_sentence_id = 2\<rparr>],
             1495 := [\<lparr>word = ''the'', count_e = 4, sentence_count = 3, last_sentence_id = 2\<rparr>],
             2780 := [\<lparr>word = ''cat'', count_e = 3, sentence_count = 2, last_sentence_id = 2\<rparr>],
             4318 := [\<lparr>word = ''dog'', count_e = 3, sentence_count = 2, last_sentence_id = 2\<rparr>],
             9102 := [\<lparr>word = ''ran'', count_e = 1, sentence_count = 1, last_sentence_id = 2\<rparr>],
             9288 := [\<lparr>word = ''slept'', count_e = 1, sentence_count = 1, last_sentence_id = 2\<rparr>],
             9380 := [\<lparr>word = ''hello'', count_e = 1, sentence_count = 1, last_sentence_id = 2\<rparr>]),
          buf = [], buf_cap = 64, total_words = 16, total_sentences = 3, current_sentence_id = 3, nalloc = 17\<rparr>"
    by (simp only: run_env_def env.simps many_words_index)
  show ?thesis
    by (simp add: main_def o i many_words_rank print_report_def PRINT_LINE_def)
qed

theorem top_others_selection_witness:
  "main (run_env ''The dog sat. The cat sat! the Cat, the CAT: dog dog ran slept hello world.'') [''topic_index'', ''CAT''] =
     Inr \<lparr>rep_topic = ''CAT'', rep_total_words = 16, rep_total_sentences = 3,
          rep_rows =
            [\<lparr>row_word = ''cat'', row_count = 3, row_pct_w = 300 / 16, row_sentence_count = 2,
              row_total_sentences = 3, row_pct_s = 200 / 3\<rparr>,
             \<lparr>row_word = ''dog'', row_count = 3, row_pct_w = 300 / 16, row_sentence_count = 2,
              row_total_sentences = 3, row_pct_s = 200 / 3\<rparr>,
             \<lparr>row_word = ''sat'', row_count = 2, row_pct_w = 200 / 16, row_sentence_count = 2,
              row_total_sentences = 3, row_pct_s = 200 / 3\<rparr>,
             \<lparr>row_word = ''world'', row_count = 1, row_pct_w = 100 / 16, row_sentence_count = 1,
              row_total_sentences = 3, row_pct_s = 100 / 3\<rparr>,
             \<lparr>row_word = ''ran'', row_count = 1, row_pct_w = 100 / 16, row_sentence_count = 1,
              row_total_sentences = 3, row_pct_s = 100 / 3\<rparr>]\<rparr> \<and>
   qsort_contract (qsort (run_env ''The dog sat. The cat sat! the Cat, the CAT: dog dog ran slept hello world.'')) \<and>
   index_stream (malloc_ok (run_env ''The dog sat. The cat sat! the Cat, the CAT: dog dog ran slept hello world.'')) ''The dog sat. The cat sat! the Cat, the CAT: dog dog ran slept hello world.'' =
     Inr \<lparr>hash_table = (\<lambda>i. [])
            (190 := [\<lparr>word = ''sat'', count_e = 2, sentence_count = 2, last_sentence_id = 1\<rparr>],
             1383 := [\<lparr>word = ''world'', count_e = 1, sentence_count = 1, last_sentence_id = 2\<rparr>],
             1495 := [\<lparr>word = ''the'', count_e = 4, sentence_count = 3, last_sentence_id = 2\<rparr>],
             2780 := [\<lparr>word = ''cat'', count_e = 3, sentence_count = 2, last_sentence_id = 2\<rparr>],
             4318 := [\<lparr>word = ''dog'', count_e = 3, sentence_count = 2, last_sentence_id = 2\<rparr>],
             9102 := [\<lparr>word = ''ran'', count_e = 1, sentence_count = 1, last_sentence_id = 2\<rparr>],
             9288 := [\<lparr>word = ''slept'', count_e = 1, sentence_count = 1, last_sentence_id = 2\<rparr>],
             9380 := [\<lparr>word = ''hello'', count_e = 1, sentence_count = 1, last_sentence_id = 2\<rparr>]),
          buf = [], buf_cap = 64, total_words = 16, total_sentences = 3, current_sentence_id = 3, nalloc = 17\<rparr> \<and>
   rank_words (run_env ''The dog sat. The cat sat! the Cat, the CAT: dog dog ran slept hello world.'') ''CAT''
     \<lparr>hash_table = (\<lambda>i. [])
            (190 := [\<lparr>word = ''sat'', count_e = 2, sentence_count = 2, last_sentence_id = 1\<rparr>],
             1383 := [\<lparr>word = ''world'', count_e = 1, sentence_count = 1, last_sentence_id = 2\<rparr>],
             1495 := [\<lparr>word = ''the'', count_e = 4, sentence_count = 3, last_sentence_id = 2\<rparr>],
             2780 := [\<lparr>word = ''cat'', count_e = 3, sentence_count = 2, last_sentence_id = 2\<rparr>],
             4318 := [\<lparr>word = ''dog'', count_e = 3, sentence_count = 2, last_sentence_id = 2\<rparr>],
             9102 := [\<lparr>word = ''ran'', count_e = 1, sentence_count = 1, last_sentence_id = 2\<rparr>],
             9288 := [\<lparr>word = ''slept'', count_e = 1, sentence_count = 1, last_sentence_id = 2\<rparr>],
             9380 := [\<lparr>word = ''hello'', count_e = 1, sentence_count = 1, last_sentence_id = 2\<rparr>]),
          buf = [], buf_cap = 64, total_words = 16, total_sentences = 3, current_sentence_id = 3, nalloc = 17\<rparr>
   = Inr (Some \<lparr>word = ''cat'', count_e = 3, sentence_count = 2, last_sentence_id = 2\<rparr>,
       [\<lparr>word = ''dog'', count_e = 3, sentence_count = 2, last_sentence_id = 2\<rparr>,
        \<lparr>word = ''sat'', count_e = 2, sentence_count = 2, last_sentence_id = 1\<rparr>,
        \<lparr>word = ''world'', count_e = 1, sentence_count = 1, last_sentence_id = 2\<rparr>,
        \<lparr>word = ''ran'', count_e = 1, sentence_count = 1, last_sentence_id = 2\<rparr>]) \<and>
   lookup_word ((\<lambda>i. [])
            (190 := [\<lparr>word = ''sat'', count_e = 2, sentence_count = 2, last_sentence_id = 1\<rparr>],
             1383 := [\<lparr>word = ''world'', count_e = 1, sentence_count = 1, last_sentence_id = 2\<rparr>],
             1495 := [\<lparr>word = ''the'', count_e = 4, sentence_count = 3, last_sentence_id = 2\<rparr>],
             2780 := [\<lparr>word = ''cat'', count_e = 3, sentence_count = 2, last_sentence_id = 2\<rparr>],
             4318 := [\<lparr>word = ''dog'', count_e = 3, sentence_count = 2, last_sentence_id = 2\<rparr>],
             9102 := [\<lparr>word = ''ran'', count_e = 1, sentence_count = 1, last_sentence_id = 2\<rparr>],
             9288 := [\<lparr>word = ''slept'', count_e = 1, sentence_count = 1, last_sentence_id = 2\<rparr>],
             9380 := [\<lparr>word = ''hello'', count_e = 1, sentence_count = 1, last_sentence_id = 2\<rparr>])) (map tolower ''CAT'')
   = Some \<lparr>word = ''cat'', count_e = 3, sentence_count = 2, last_sentence_id = 2\<rparr> \<and>
   lookup_word ((\<lambda>i. [])
            (190 := [\<lparr>word = ''sat'', count_e = 2, sentence_count = 2, last_sentence_id = 1\<rparr>],
             1383 := [\<lparr>word = ''world'', count_e = 1, sentence_count = 1, last_sentence_id = 2\<rparr>],
             1495 := [\<lparr>word = ''the'', count_e = 4, sentence_count = 3, last_sentence_id = 2\<rparr>],
             2780 := [\<lparr>word = ''cat'', count_e = 3, sentence_count = 2, last_sentence_id = 2\<rparr>],
             4318 := [\<lparr>word = ''dog'', count_e = 3, sentence_count = 2, last_sentence_id = 2\<rparr>],
             9102 := [\<lparr>word = ''ran'', count_e = 1, sentence_count = 1, last_sentence_id = 2\<rparr>],
             9288 := [\<lparr>word = ''slept'', count_e = 1, sentence_count = 1, last_sentence_id = 2\<rparr>],
             9380 := [\<lparr>word = ''hello'', count_e = 1, sentence_count = 1, last_sentence_id = 2\<rparr>])) ''the''
   = Some \<lparr>word = ''the'', count_e = 4, sentence_count = 3, last_sentence_id = 2\<rparr> \<and>
   is_stop_word ''the'' \<and>
   length (filter (eligible (Some \<lparr>word = ''cat'', count_e = 3, sentence_count = 2, last_sentence_id = 2\<rparr>))
     (table_entries ((\<lambda>i. [])
            (190 := [\<lparr>word = ''sat'', count_e = 2, sentence_count = 2, last_sentence_id = 1\<rparr>],
             1383 := [\<lparr>word = ''world'', count_e = 1, sentence_count = 1, last_sentence_id = 2\<rparr>],
             1495 := [\<lparr>word = ''the'', count_e = 4, sentence_count = 3, last_sentence_id = 2\<rparr>],
             2780 := [\<lparr>word = ''cat'', count_e = 3, sentence_count = 2, last_sentence_id = 2\<rparr>],
             4318 := [\<lparr>word = ''dog'', count_e = 3, sentence_count = 2, last_sentence_id = 2\<rparr>],
             9102 := [\<lparr>word = ''ran'', count_e = 1, sentence_count = 1, last_sentence_id = 2\<rparr>],
             9288 := [\<lparr>word = ''slept'', count_e = 1, sentence_count = 1, last_sentence_id = 2\<rparr>],
             9380 := [\<lparr>word = ''hello'', count_e = 1, sentence_count = 1, last_sentence_id = 2\<rparr>])))) = 6 \<and>
   distinct
     [\<lparr>word = ''dog'', count_e = 3, sentence_count = 2, last_sentence_id = 2\<rparr>,
        \<lparr>word = ''sat'', count_e = 2, sentence_count = 2, last_sentence_id = 1\<rparr>,
        \<lparr>word = ''world'', count_e = 1, sentence_count = 1, last_sentence_id = 2\<rparr>,
        \<lparr>word = ''ran'', count_e = 1, sentence_count = 1, last_sentence_id = 2\<rparr>] \<and>
   sorted_wrt (\<lambda>a b. count_e b \<le> count_e a)
     [\<lparr>word = ''dog'', count_e = 3, sentence_count = 2, last_sentence_id = 2\<rparr>,
        \<lparr>word = ''sat'', count_e = 2, sentence_count = 2, last_sentence_id = 1\<rparr>,
        \<lparr>word = ''world'', count_e = 1, sentence_count = 1, last_sentence_id = 2\<rparr>,
        \<lparr>word = ''ran'', count_e = 1, sentence_count = 1, last_sentence_id = 2\<rparr>] \<and>
   count_e \<lparr>word = ''slept'', count_e = 1, sentence_count = 1, last_sentence_id = 2\<rparr>
     \<le> count_e \<lparr>word = ''ran'', count_e = 1, sentence_count = 1, last_sentence_id = 2\<rparr> \<and>
   count_e \<lparr>word = ''hello'', count_e = 1, sentence_count = 1, last_sentence_id = 2\<rparr>
     \<le> count_e \<lparr>word = ''dog'', count_e = 3, sentence_count = 2, last_sentence_id = 2\<rparr>"
proof -
  let ?I = "''The dog sat. The cat sat! the Cat, the CAT: dog dog ran slept hello world.''"
  let ?env = "run_env ?I"
  let ?argv = "[''topic_index'', ''CAT'']"
  let ?T = "(\<lambda>i. [])
            (190 := [\<lparr>word = ''sat'', count_e = 2, sentence_count = 2, last_sentence_id = 1\<rparr>],
             1383 := [\<lparr>word = ''world'', count_e = 1, sentence_count = 1, last_sentence_id = 2\<rparr>],
             1495 := [\<lparr>word = ''the'', count_e = 4, sentence_count = 3, last_sentence_id = 2\<rparr>],
             2780 := [\<lparr>word = ''cat'', count_e = 3, sentence_count = 2, last_sentence_id = 2\<rparr>],
             4318 := [\<lparr>word = ''dog'', count_e = 3, sentence_count = 2, last_sentence_id = 2\<rparr>],
             9102 := [\<lparr>word = ''ran'', count_e = 1, sentence_count = 1, last_sentence_id = 2\<rparr>],
             9288 := [\<lparr>word = ''slept'', count_e = 1, sentence_count = 1, last_sentence_id = 2\<rparr>],
             9380 := [\<lparr>word = ''hello'', count_e = 1, sentence_count = 1, last_sentence_id = 2\<rparr>])"
  let ?st = "\<lparr>hash_table = (\<lambda>i. [])
            (190 := [\<lparr>word = ''sat'', count_e = 2, sentence_count = 2, last_sentence_id = 1\<rparr>],
             1383 := [\<lparr>word = ''world'', count_e = 1, sentence_count = 1, last_sentence_id = 2\<rparr>],
             1495 := [\<lparr>word = ''the'', count_e = 4, sentence_count = 3, last_sentence_id = 2\<rparr>],
             2780 := [\<lparr>word = ''cat'', count_e = 3, sentence_count = 2, last_sentence_id = 2\<rparr>],
             4318 := [\<lparr>word = ''dog'', count_e = 3, sentence_count = 2, last_sentence_id = 2\<rparr>],
             9102 := [\<lparr>word = ''ran'', count_e = 1, sentence_count = 1, last_sentence_id = 2\<rparr>],
             9288 := [\<lparr>word = ''slept'', count_e = 1, sentence_count = 1, last_sentence_id = 2\<rparr>],
             9380 := [\<lparr>word = ''hello'', count_e = 1, sentence_count = 1, last_sentence_id = 2\<rparr>]),
          buf = [], buf_cap = 64, total_words = 16, total_sentences = 3, current_sentence_id = 3, nalloc = 17\<rparr>"
  let ?cat = "\<lparr>word = ''cat'', count_e = 3, sentence_count = 2, last_sentence_id = 2\<rparr>"
  let ?the = "\<lparr>word = ''the'', count_e = 4, sentence_count = 3, last_sentence_id = 2\<rparr>"
  let ?dog = "\<lparr>word = ''dog'', count_e = 3, sentence_count = 2, last_sentence_id = 2\<rparr>"
  let ?ran = "\<lparr>word = ''ran'', count_e = 1, sentence_count = 1, last_sentence_id = 2\<rparr>"
  let ?slept = "\<lparr>word = ''slept'', count_e = 1, sentence_count = 1, last_sentence_id = 2\<rparr>"
  let ?hello = "\<lparr>word = ''hello'', count_e = 1, sentence_count = 1, last_sentence_id = 2\<rparr>"
  let ?top = "[\<lparr>word = ''dog'', count_e = 3, sentence_count = 2, last_sentence_id = 2\<rparr>,
        \<lparr>word = ''sat'', count_e = 2, sentence_count = 2, last_sentence_id = 1\<rparr>,
        \<lparr>word = ''world'', count_e = 1, sentence_count = 1, last_sentence_id = 2\<rparr>,
        \<lparr>word = ''ran'', count_e = 1, sentence_count = 1, last_sentence_id = 2\<rparr>]"
  have q: "qsort_contract (qsort ?env)"
    by (simp add: run_env_def insertion_qsort_contract)
  have o: "open_input ?env ?argv = Inr ?I"
    by (simp add: open_input_def run_env_def)
  have i: "index_stream (malloc_ok ?env) ?I = Inr ?st"
    by (simp only: run_env_def env.simps many_words_index)
  have a: "?argv ! 1 = ''CAT''" by simp
  have stop: "is_stop_word ''the''" by (simp add: is_stop_word_def STOP_WORDS_def)
  have lthe: "lookup_word ?T ''the'' = Some ?the"
    by (simp add: lookup_word_def hash_values)
  have n: "length (filter (eligible (Some ?cat)) (table_entries ?T)) = 6"
    by (simp add: many_words_entries eligible_def is_stop_word_def STOP_WORDS_def)
  from top_others_selection [of ?env ?argv, THEN mp, OF conjI [OF many_words_main q]]
  obtain input st topic_entry top4 where
    o': "open_input ?env ?argv = Inr input"
    and i': "index_stream (malloc_ok ?env) input = Inr st"
    and r': "rank_words ?env (?argv ! 1) st = Inr (topic_entry, top4)"
    and l': "topic_entry = lookup_word (hash_table st) (map tolower (?argv ! 1))"
    and d': "distinct top4"
    and s': "sorted_wrt (\<lambda>a b. count_e b \<le> count_e a) top4"
    and b': "\<forall>e\<in>set (table_entries (hash_table st)).
           e \<notin> set top4 \<and> Some e \<noteq> topic_entry \<and> \<not> is_stop_word (word e)
           \<longrightarrow> (\<forall>t\<in>set top4. count_e e \<le> count_e t)"
    by blast
  from o o' have input: "input = ?I" by simp
  with i i' have st: "st = ?st" by simp
  from r' have rk: "rank_words ?env ''CAT'' ?st = Inr (topic_entry, top4)"
    unfolding st a .
  with many_words_rank have te: "topic_entry = Some ?cat" and top4: "top4 = ?top"
    by simp_all
  from l' have lcat: "lookup_word ?T (map tolower ''CAT'') = Some ?cat"
    unfolding st a te by (simp only: state.simps)
  have ent: "table_entries (hash_table st) = [\<lparr>word = ''sat'', count_e = 2, sentence_count = 2, last_sentence_id = 1\<rparr>,
        \<lparr>word = ''world'', count_e = 1, sentence_count = 1, last_sentence_id = 2\<rparr>,
        \<lparr>word = ''the'', count_e = 4, sentence_count = 3, last_sentence_id = 2\<rparr>,
        \<lparr>word = ''cat'', count_e = 3, sentence_count = 2, last_sentence_id = 2\<rparr>,
        \<lparr>word = ''dog'', count_e = 3, sentence_count = 2, last_sentence_id = 2\<rparr>,
        \<lparr>word = ''ran'', count_e = 1, sentence_count = 1, last_sentence_id = 2\<rparr>,
        \<lparr>word = ''slept'', count_e = 1, sentence_count = 1, last_sentence_id = 2\<rparr>,
        \<lparr>word = ''hello'', count_e = 1, sentence_count = 1, last_sentence_id = 2\<rparr>]"
    unfolding st by (simp only: state.simps many_words_entries)
  have ns: "\<not> is_stop_word ''slept''" "\<not> is_stop_word ''hello''"
    by (simp_all add: is_stop_word_def STOP_WORDS_def)
  from b' have "?slept \<in> set (table_entries (hash_table st)) \<Longrightarrow>
      ?slept \<notin> set top4 \<and> Some ?slept \<noteq> topic_entry \<and> \<not> is_stop_word (word ?slept) \<Longrightarrow>
      ?ran \<in> set top4 \<Longrightarrow> count_e ?slept \<le> count_e ?ran"
    by blast
  then have b1: "count_e ?slept \<le> count_e ?ran"
    unfolding ent top4 te using ns by simp
  from b' have "?hello \<in> set (table_entries (hash_table st)) \<Longrightarrow>
      ?hello \<notin> set top4 \<and> Some ?hello \<noteq> topic_entry \<and> \<not> is_stop_word (word ?hello) \<Longrightarrow>
      ?dog \<in> set top4 \<Longrightarrow> count_e ?hello \<le> count_e ?dog"
    by blast
  then have b2: "count_e ?hello \<le> count_e ?dog"
    unfolding ent top4 te using ns by simp
  from d' s' have ds: "distinct ?top" "sorted_wrt (\<lambda>a b. count_e b \<le> count_e a) ?top"
    unfolding top4 by simp_all
  from rk have rk2: "rank_words ?env ''CAT'' ?st = Inr (Some ?cat, ?top)"
    unfolding te top4 .
  show ?thesis
    apply (intro conjI)
    apply (rule many_words_main)
    apply (rule q)
    apply (rule i)
    apply (rule rk2)
    apply (rule lcat)
    apply (rule lthe)
    apply (rule stop)
    apply (rule n)
    apply (rule ds(1))
    apply (rule ds(2))
    apply (rule b1)
    apply (rule b2)
    done
qed

subsection \<open>The topic row\<close>

lemma rows_of_top4:
  "concat (map (\<lambda>e. PRINT_LINE tw ts (Some e)) top4) =
   map (\<lambda>e. \<lparr>row_word = word e, row_count = count_e e,
              row_pct_w = (if tw > 0 then 100 * real_of_int (count_e e) / real_of_int tw else 0),
              row_sentence_count = sentence_count e, row_total_sentences = ts,
              row_pct_s = (if ts > 0 then 100 * real_of_int (sentence_count e) / real_of_int ts else 0)\<rparr>)
     top4"
  by (induction top4) (simp_all add: PRINT_LINE_def)

lemma dog_only:
  "index_stream (\<lambda>k. True) ''dog.'' =
     Inr \<lparr>hash_table = (\<lambda>i. [])
            (4318 := [\<lparr>word = ''dog'', count_e = 1, sentence_count = 1, last_sentence_id = 0\<rparr>]),
          buf = [], buf_cap = 64, total_words = 1, total_sentences = 1, current_sentence_id = 1, nalloc = 3\<rparr>"
  by (simp add: eval_defs)

text \<open>
  C2, as the claim states it, fails: on the input \<open>dog.\<close> with the topic \<open>cat\<close>, which the text
  does not contain, the report has the row of \<open>dog\<close> and no row for \<open>cat\<close>.
\<close>

theorem absent_topic_counterexample:
  "tokens ''dog.'' = [''dog''] \<and> map tolower ''cat'' = ''cat'' \<and>
   main (run_env ''dog.'') [''topic_index'', ''cat''] =
     Inr \<lparr>rep_topic = ''cat'', rep_total_words = 1, rep_total_sentences = 1,
          rep_rows =
            [\<lparr>row_word = ''dog'', row_count = 1, row_pct_w = 100, row_sentence_count = 1,
              row_total_sentences = 1, row_pct_s = 100\<rparr>]\<rparr>"
proof -
  have tok: "tokens ''dog.'' = [''dog'']"
    by (simp add: tokens_def isalnum_def tolower_other)
  have lc: "map tolower ''cat'' = ''cat''" by (simp add: tolower_other)
  have "main (run_env ''dog.'') [''topic_index'', ''cat''] =
     Inr \<lparr>rep_topic = ''cat'', rep_total_words = 1, rep_total_sentences = 1,
          rep_rows =
            [\<lparr>row_word = ''dog'', row_count = 1, row_pct_w = 100, row_sentence_count = 1,
              row_total_sentences = 1, row_pct_s = 100\<rparr>]\<rparr>"
    by (simp add: main_def run_env_def open_input_def dog_only collect_ok table_entries_single
        HASH_SIZE_def eval_rank hash_values Let_def tolower_other)
  with tok lc show ?thesis by simp
qed

text \<open>
  C2, amended. When the lower-cased topic word is not a word of the input text, a run whose
  allocations succeed (with a \<^verbatim>\<open>qsort\<close> that keeps its contract) completes with exit status 0,
  and its report has no row for the topic word: it has at most four rows, each for a word of the
  text that is not a stop word.
\<close>

theorem absent_topic_prints_no_row:
  "2 \<le> length argv \<and> open_input env argv = Inr input \<and> (\<forall>k. malloc_ok env k) \<and>
   qsort_contract (qsort env) \<and> map tolower (argv ! 1) \<notin> set (tokens input)
   \<longrightarrow> (\<exists>rep. main env argv = Inr rep \<and> exit_status (main env argv) = 0 \<and>
          length (rep_rows rep) \<le> 4 \<and>
          (\<forall>r\<in>set (rep_rows rep).
             row_word r \<noteq> map tolower (argv ! 1) \<and> row_word r \<in> set (tokens input) \<and>
             \<not> is_stop_word (row_word r)))"
proof
  assume a: "2 \<le> length argv \<and> open_input env argv = Inr input \<and> (\<forall>k. malloc_ok env k) \<and>
   qsort_contract (qsort env) \<and> map tolower (argv ! 1) \<notin> set (tokens input)"
  then have args: "2 \<le> length argv" and inp: "open_input env argv = Inr input"
    and mem: "\<forall>k. malloc_ok env k" and qs: "qsort_contract (qsort env)"
    and absent: "map tolower (argv ! 1) \<notin> set (tokens input)" by simp_all
  from args inp mem obtain st te top4 where run: "index_stream (malloc_ok env) input = Inr st"
    and r: "rank_words env (argv ! 1) st = Inr (te, top4)"
    and m: "main env argv = Inr (print_report (argv ! 1) st te top4)"
    by (rule main_ok)
  let ?rep = "print_report (argv ! 1) st te top4"
  have ok: "table_ok (hash_table st)" using run by (rule index_stream_table_ok)
  have words: "word ` set (table_entries (hash_table st)) = set (tokens input)"
    using run by (rule index_stream_tokens(1))
  have te: "te = None"
  proof (cases te)
    case None
    then show ?thesis .
  next
    case (Some t)
    with rank_words_Inr(1) [OF r]
    have l: "lookup_word (hash_table st) (map tolower (argv ! 1)) = Some t" by simp
    from lookup_word_Some(1) [OF l] lookup_word_in_table [OF ok l]
    have "map tolower (argv ! 1) \<in> word ` set (table_entries (hash_table st))" by force
    with words absent have False by simp
    then show ?thesis ..
  qed
  note p = top4_properties [OF ok qs r]
  have rows: "rep_rows ?rep =
     map (\<lambda>e. \<lparr>row_word = word e, row_count = count_e e,
              row_pct_w = (if total_words st > 0
                           then 100 * real_of_int (count_e e) / real_of_int (total_words st) else 0),
              row_sentence_count = sentence_count e, row_total_sentences = total_sentences st,
              row_pct_s = (if total_sentences st > 0
                           then 100 * real_of_int (sentence_count e) / real_of_int (total_sentences st)
                           else 0)\<rparr>) top4"
    unfolding te print_report_def rows_of_top4 by (simp add: PRINT_LINE_def)
  have len: "length (rep_rows ?rep) \<le> 4" using rows p(1) by simp
  have each: "\<forall>r\<in>set (rep_rows ?rep).
             row_word r \<noteq> map tolower (argv ! 1) \<and> row_word r \<in> set (tokens input) \<and>
             \<not> is_stop_word (row_word r)"
  proof
    fix r
    assume "r \<in> set (rep_rows ?rep)"
    then have "r \<in> (\<lambda>e. \<lparr>row_word = word e, row_count = count_e e,
              row_pct_w = (if total_words st > 0
                           then 100 * real_of_int (count_e e) / real_of_int (total_words st) else 0),
              row_sentence_count = sentence_count e, row_total_sentences = total_sentences st,
              row_pct_s = (if total_sentences st > 0
                           then 100 * real_of_int (sentence_count e) / real_of_int (total_sentences st)
                           else 0)\<rparr>) ` set top4"
      unfolding rows by simp
    then obtain e where e: "e \<in> set top4" and w: "row_word r = word e" by auto
    from p(3) e have "e \<in> set (table_entries (hash_table st))"
      "word e \<noteq> map tolower (argv ! 1)" "\<not> is_stop_word (word e)" by simp_all
    with words w show "row_word r \<noteq> map tolower (argv ! 1) \<and> row_word r \<in> set (tokens input) \<and>
             \<not> is_stop_word (row_word r)" by auto
  qed
  have "exit_status (main env argv) = 0" using m by (simp add: exit_status_def EXIT_SUCCESS_def)
  with m len each show "\<exists>rep. main env argv = Inr rep \<and> exit_status (main env argv) = 0 \<and>
          length (rep_rows rep) \<le> 4 \<and>
          (\<forall>r\<in>set (rep_rows rep).
             row_word r \<noteq> map tolower (argv ! 1) \<and> row_word r \<in> set (tokens input) \<and>
             \<not> is_stop_word (row_word r))"
    by simp
qed

theorem absent_topic_prints_no_row_witness:
  "(2::nat) \<le> length [''topic_index'', ''Cat''] \<and>
   open_input (run_env ''The dog ran.'') [''topic_index'', ''Cat''] = Inr ''The dog ran.'' \<and>
   (\<forall>k. malloc_ok (run_env ''The dog ran.'') k) \<and>
   qsort_contract (qsort (run_env ''The dog ran.'')) \<and>
   tokens ''The dog ran.'' = [''the'', ''dog'', ''ran''] \<and>
   map tolower ([''topic_index'', ''Cat''] ! 1) = ''cat'' \<and>
   exit_status (main (run_env ''The dog ran.'') [''topic_index'', ''Cat'']) = 0"
proof -
  let ?env = "run_env ''The dog ran.''"
  let ?argv = "[''topic_index'', ''Cat'']"
  have h: "(2::nat) \<le> length ?argv" "open_input ?env ?argv = Inr ''The dog ran.''"
    "\<forall>k. malloc_ok ?env k" "qsort_contract (qsort ?env)"
    by (simp_all add: open_input_def run_env_def insertion_qsort_contract)
  have tok: "tokens ''The dog ran.'' = [''the'', ''dog'', ''ran'']"
    by (simp add: tokens_def isalnum_def tolower_other tolower_upper)
  have lc: "map tolower (?argv ! 1) = ''cat''" by (simp add: tolower_other tolower_upper)
  then have absent: "map tolower (?argv ! 1) \<notin> set (tokens ''The dog ran.'')"
    by (simp add: tok)
  from absent_topic_prints_no_row [of ?argv ?env "''The dog ran.''"] h absent
  have "exit_status (main ?env ?argv) = 0" by blast
  with h tok lc show ?thesis by blast
qed

subsection \<open>The percentages\<close>

lemma get_word_entry_sentences_ok:
  assumes ok: "sentences_ok s" and g: "get_word_entry mem w (current_sentence_id s) s = Inr s'"
  shows "sentences_ok s'"
proof -
  let ?cur = "current_sentence_id s"
  let ?Q = "\<lambda>e::WordEntry. last_sentence_id e \<le> ?cur \<and> sentence_count e \<le> last_sentence_id e + 1"
  from ok have cur: "0 \<le> ?cur" and old: "\<forall>i. \<forall>e\<in>set (hash_table s i). ?Q e"
    unfolding sentences_ok_def by auto
  have "\<forall>i. \<forall>e\<in>set (hash_table s' i). ?Q e"
  proof (rule get_word_entry_each [where Q = ?Q, OF _ _ old g])
    fix e :: WordEntry
    assume "?Q e"
    then show "?Q (update_counts ?cur e)"
      by (auto simp: sentence_count_update_counts last_sentence_id_update_counts)
  next
    from cur show "?Q (update_counts ?cur
        \<lparr>word = w, count_e = 0, sentence_count = 0, last_sentence_id = - 1\<rparr>)"
      by (simp add: sentence_count_update_counts last_sentence_id_update_counts)
  qed
  with ok get_word_entry_frame(4,5) [OF g] show ?thesis unfolding sentences_ok_def by auto
qed

lemma flush_word_sentences_ok:
  assumes ok: "sentences_ok s" and f: "flush_word mem s = Inr s'"
  shows "sentences_ok s'"
  using flush_word_cases [OF f]
proof
  assume "buf s = [] \<and> s' = s"
  with ok show ?thesis by simp
next
  assume "buf s \<noteq> [] \<and> (\<exists>s1. get_word_entry mem (buf s) (current_sentence_id s) s = Inr s1 \<and>
             s' = s1\<lparr>total_words := total_words s1 + 1, buf := []\<rparr>)"
  then obtain s1 where g: "get_word_entry mem (buf s) (current_sentence_id s) s = Inr s1"
    and s': "s' = s1\<lparr>total_words := total_words s1 + 1, buf := []\<rparr>" by blast
  from get_word_entry_sentences_ok [OF ok g] s' show ?thesis unfolding sentences_ok_def by auto
qed

lemma read_char_sentences_ok:
  assumes ok: "sentences_ok s" and rc: "read_char mem c s = Inr s'"
  shows "sentences_ok s'"
proof (cases "isalnum c")
  case True
  with rc have "hash_table s' = hash_table s" "total_sentences s' = total_sentences s"
    "current_sentence_id s' = current_sentence_id s"
    by (auto simp: read_char_def split: if_splits sum.splits)
  with ok show ?thesis unfolding sentences_ok_def by auto
next
  case False
  with rc obtain s1 where f: "flush_word mem s = Inr s1"
    and s': "s' = (if is_terminator c
                    then s1\<lparr>total_sentences := total_sentences s1 + 1,
                            current_sentence_id := total_sentences s1 + 1\<rparr>
                    else s1)"
    by (auto simp: read_char_def split: sum.splits)
  from flush_word_sentences_ok [OF ok f] s' show ?thesis
    by (fastforce simp: sentences_ok_def)
qed

lemma read_loop_sentences_ok:
  "sentences_ok s \<Longrightarrow> read_loop mem cs s = Inr s' \<Longrightarrow> sentences_ok s'"
proof (induction cs arbitrary: s)
  case Nil
  then show ?case by simp
next
  case (Cons c cs)
  from Cons.prems(2) obtain s1 where rc: "read_char mem c s = Inr s1"
    and rl: "read_loop mem cs s1 = Inr s'"
    by (auto split: sum.splits)
  from Cons.IH [OF read_char_sentences_ok [OF Cons.prems(1) rc] rl] show ?case .
qed

lemma sentence_count_le_total_sentences_plus_one:
  assumes run: "index_stream mem input = Inr st" and e: "e \<in> set (table_entries (hash_table st))"
  shows "sentence_count e \<le> total_sentences st + 1"
    and "filter is_terminator input = [] \<Longrightarrow> sentence_count e \<le> total_sentences st"
proof -
  from run obtain s0 s1 s2 where i: "init_state mem = Inr s0"
    and l: "read_loop mem input s0 = Inr s1" and f: "flush_word mem s1 = Inr s2"
    and st: "st = (if total_sentences s2 = 0 \<and> total_words s2 > 0 then s2\<lparr>total_sentences := 1\<rparr> else s2)"
    by (rule index_stream_cases)
  have "sentences_ok s0" using init_state_Inr [OF i] by (simp add: sentences_ok_def)
  then have "sentences_ok s1" using l by (rule read_loop_sentences_ok)
  then have ok2: "sentences_ok s2" using f by (rule flush_word_sentences_ok)
  from st have ht: "hash_table st = hash_table s2" by simp
  from e obtain i where "e \<in> set (hash_table s2 i)" by (auto simp: set_table_entries ht)
  with ok2 have sc: "sentence_count e \<le> total_sentences s2 + 1"
    by (fastforce simp: sentences_ok_def)
  from st ok2 have ge: "total_sentences s2 \<le> total_sentences st"
    by (simp add: sentences_ok_def)
  with sc show "sentence_count e \<le> total_sentences st + 1" by simp
  show "sentence_count e \<le> total_sentences st" if none: "filter is_terminator input = []"
  proof -
    note b = index_stream_bounded [OF run]
    from index_stream_sentences [OF run] none
    have ts: "total_sentences st = (if 0 < total_words st then 1 else 0)" by simp
    from read_loop_sentences [OF l] flush_word_frame(1) [OF f] init_state_Inr [OF i] none
    have "total_sentences s2 = 0" by simp
    with sc have "sentence_count e \<le> 1" by simp
    moreover from b e have "sentence_count e \<le> total_words st" by fastforce
    ultimately show ?thesis using ts by (simp split: if_splits)
  qed
qed

lemma report_rows_bounds:
  assumes m: "main env argv = Inr rep" and qs: "qsort_contract (qsort env)"
    and r: "r \<in> set (rep_rows rep)"
  shows "0 \<le> row_sentence_count r \<and> row_sentence_count r \<le> row_count r \<and>
         row_count r \<le> rep_total_words rep \<and>
         0 \<le> row_pct_w r \<and> row_pct_w r \<le> 100 \<and> 0 \<le> row_pct_s r"
proof -
  from m obtain input st te top4 where run: "index_stream (malloc_ok env) input = Inr st"
    and rk: "rank_words env (argv ! 1) st = Inr (te, top4)"
    and rep: "rep = print_report (argv ! 1) st te top4"
    by (rule main_Inr)
  let ?tw = "total_words st" and ?ts = "total_sentences st"
  have ok: "table_ok (hash_table st)" using run by (rule index_stream_table_ok)
  note b = index_stream_bounded [OF run]
  from r rep have "r \<in> set (PRINT_LINE ?tw ?ts te) \<or>
      (\<exists>e\<in>set top4. r \<in> set (PRINT_LINE ?tw ?ts (Some e)))"
    by (auto simp: print_report_def)
  then obtain e where e: "e \<in> set (table_entries (hash_table st))"
    and re: "r \<in> set (PRINT_LINE ?tw ?ts (Some e))"
  proof
    assume a: "r \<in> set (PRINT_LINE ?tw ?ts te)"
    then obtain t where t: "te = Some t" by (cases te) (simp_all add: PRINT_LINE_def)
    with rank_words_Inr(1) [OF rk] lookup_word_in_table [OF ok]
    have "t \<in> set (table_entries (hash_table st))" by simp
    with a t that show ?thesis by simp
  next
    assume "\<exists>e\<in>set top4. r \<in> set (PRINT_LINE ?tw ?ts (Some e))"
    then obtain e where "e \<in> set top4" and a: "r \<in> set (PRINT_LINE ?tw ?ts (Some e))" ..
    with top4_properties(3) [OF ok qs rk] have "e \<in> set (table_entries (hash_table st))" by simp
    with a that show ?thesis by simp
  qed
  from b e have c: "0 \<le> sentence_count e" "sentence_count e \<le> count_e e" "count_e e \<le> ?tw"
    "0 \<le> ?ts" by simp_all
  from re have fields: "row_count r = count_e e" "row_sentence_count r = sentence_count e"
    "row_pct_w r = (if ?tw > 0 then 100 * real_of_int (count_e e) / real_of_int ?tw else 0)"
    "row_pct_s r = (if ?ts > 0 then 100 * real_of_int (sentence_count e) / real_of_int ?ts else 0)"
    by (simp_all add: PRINT_LINE_def)
  have w: "0 \<le> row_pct_w r \<and> row_pct_w r \<le> 100"
  proof (cases "?tw > 0")
    case True
    with c have "0 \<le> real_of_int (count_e e)" "real_of_int (count_e e) \<le> real_of_int ?tw"
      "0 < real_of_int ?tw" by simp_all
    then have "0 \<le> 100 * real_of_int (count_e e) / real_of_int ?tw"
      and "100 * real_of_int (count_e e) / real_of_int ?tw \<le> 100"
      by (simp_all add: divide_le_eq)
    with True fields(3) show ?thesis by simp
  next
    case False
    with fields(3) show ?thesis by simp
  qed
  have s: "0 \<le> row_pct_s r" using c fields(4) by simp
  from rep have "rep_total_words rep = ?tw" by (simp add: print_report_def)
  with c fields(1,2) w s show ?thesis by simp
qed

lemma cat_cat:
  "index_stream (\<lambda>k. True) ''cat. cat'' =
     Inr \<lparr>hash_table = (\<lambda>i. [])
            (2780 := [\<lparr>word = ''cat'', count_e = 2, sentence_count = 2, last_sentence_id = 1\<rparr>]),
          buf = [], buf_cap = 64, total_words = 2, total_sentences = 1, current_sentence_id = 1, nalloc = 3\<rparr>"
  by (simp add: eval_defs)

text \<open>
  C1 fails on the code. The words after the last terminator are recorded under a sentence id of
  their own, but \<open>total_sentences\<close> counts that unterminated sentence only when the text has no
  terminator at all (lines 236 to 240). On the input \<open>cat. cat\<close> with the topic \<open>cat\<close> the report
  line of \<open>cat\<close> shows 2 of 1 sentences, 200 percent. What the code does keep is stated by the two
  lemmas above: \<open>sentence_count \<le> total_sentences + 1\<close>, and a percentage of words within 0 and
  100.
\<close>

theorem sentence_percentage_exceeds_100:
  "main (run_env ''cat. cat'') [''topic_index'', ''cat''] =
     Inr \<lparr>rep_topic = ''cat'', rep_total_words = 2, rep_total_sentences = 1,
          rep_rows =
            [\<lparr>row_word = ''cat'', row_count = 2, row_pct_w = 100, row_sentence_count = 2,
              row_total_sentences = 1, row_pct_s = 200\<rparr>]\<rparr>"
  by (simp add: main_def run_env_def open_input_def cat_cat collect_ok table_entries_single
      HASH_SIZE_def eval_rank hash_values Let_def tolower_other)

subsection \<open>The example run of the specification\<close>

lemma the_cat_index:
  "index_stream (\<lambda>k. True) ''The cat sat. The cat ran. The dog slept.'' =
     Inr \<lparr>hash_table = (\<lambda>i. [])
            (190 := [\<lparr>word = ''sat'', count_e = 1, sentence_count = 1, last_sentence_id = 0\<rparr>],
             1495 := [\<lparr>word = ''the'', count_e = 3, sentence_count = 3, last_sentence_id = 2\<rparr>],
             2780 := [\<lparr>word = ''cat'', count_e = 2, sentence_count = 2, last_sentence_id = 1\<rparr>],
             4318 := [\<lparr>word = ''dog'', count_e = 1, sentence_count = 1, last_sentence_id = 2\<rparr>],
             9102 := [\<lparr>word = ''ran'', count_e = 1, sentence_count = 1, last_sentence_id = 1\<rparr>],
             9288 := [\<lparr>word = ''slept'', count_e = 1, sentence_count = 1, last_sentence_id = 2\<rparr>]),
          buf = [], buf_cap = 64, total_words = 9, total_sentences = 3, current_sentence_id = 3, nalloc = 13\<rparr>"
  by (simp add: eval_defs) (rule ext, simp)

lemma rank_words_ok:
  assumes "\<forall>k. malloc_ok env k"
  shows "rank_words env topic st =
     Inr (lookup_word (hash_table st) (map tolower topic),
          take 4 (filter (eligible (lookup_word (hash_table st) (map tolower topic)))
                   (qsort env cmp_wordptr_count (table_entries (hash_table st)))))"
proof (cases "rank_words env topic st")
  case (Inl err)
  from rank_words_Inl [OF this] assms show ?thesis by blast
next
  case (Inr r)
  then have "rank_words env topic st = Inr (fst r, snd r)" by simp
  from rank_words_Inr [OF this] Inr show ?thesis by (cases r) simp
qed

lemma the_cat_entries:
  "table_entries ((\<lambda>i. [])
            (190 := [\<lparr>word = ''sat'', count_e = 1, sentence_count = 1, last_sentence_id = 0\<rparr>],
             1495 := [\<lparr>word = ''the'', count_e = 3, sentence_count = 3, last_sentence_id = 2\<rparr>],
             2780 := [\<lparr>word = ''cat'', count_e = 2, sentence_count = 2, last_sentence_id = 1\<rparr>],
             4318 := [\<lparr>word = ''dog'', count_e = 1, sentence_count = 1, last_sentence_id = 2\<rparr>],
             9102 := [\<lparr>word = ''ran'', count_e = 1, sentence_count = 1, last_sentence_id = 1\<rparr>],
             9288 := [\<lparr>word = ''slept'', count_e = 1, sentence_count = 1, last_sentence_id = 2\<rparr>]))
   = [\<lparr>word = ''sat'', count_e = 1, sentence_count = 1, last_sentence_id = 0\<rparr>,
      \<lparr>word = ''the'', count_e = 3, sentence_count = 3, last_sentence_id = 2\<rparr>,
      \<lparr>word = ''cat'', count_e = 2, sentence_count = 2, last_sentence_id = 1\<rparr>,
      \<lparr>word = ''dog'', count_e = 1, sentence_count = 1, last_sentence_id = 2\<rparr>,
      \<lparr>word = ''ran'', count_e = 1, sentence_count = 1, last_sentence_id = 1\<rparr>,
      \<lparr>word = ''slept'', count_e = 1, sentence_count = 1, last_sentence_id = 2\<rparr>]"
  by (simp add: table_entries_sparse [where ks = "[190, 1495, 2780, 4318, 9102, 9288]"] HASH_SIZE_def)

lemma the_cat_eligible:
  "filter (eligible (Some \<lparr>word = ''cat'', count_e = 2, sentence_count = 2, last_sentence_id = 1\<rparr>))
     [\<lparr>word = ''sat'', count_e = 1, sentence_count = 1, last_sentence_id = 0\<rparr>,
      \<lparr>word = ''the'', count_e = 3, sentence_count = 3, last_sentence_id = 2\<rparr>,
      \<lparr>word = ''cat'', count_e = 2, sentence_count = 2, last_sentence_id = 1\<rparr>,
      \<lparr>word = ''dog'', count_e = 1, sentence_count = 1, last_sentence_id = 2\<rparr>,
      \<lparr>word = ''ran'', count_e = 1, sentence_count = 1, last_sentence_id = 1\<rparr>,
      \<lparr>word = ''slept'', count_e = 1, sentence_count = 1, last_sentence_id = 2\<rparr>]
   = [\<lparr>word = ''sat'', count_e = 1, sentence_count = 1, last_sentence_id = 0\<rparr>,
      \<lparr>word = ''dog'', count_e = 1, sentence_count = 1, last_sentence_id = 2\<rparr>,
      \<lparr>word = ''ran'', count_e = 1, sentence_count = 1, last_sentence_id = 1\<rparr>,
      \<lparr>word = ''slept'', count_e = 1, sentence_count = 1, last_sentence_id = 2\<rparr>]"
  by (simp add: eligible_def is_stop_word_def STOP_WORDS_def)

text \<open>
  C6. On the input \<open>The cat sat. The cat ran. The dog slept.\<close> with the topic \<open>cat\<close>, whatever
  the name of the program and the \<^verbatim>\<open>qsort\<close> (within its contract), a run whose allocations
  succeed reports 9 words and 3 sentences. The table holds six entries: \<open>cat\<close> with count 2 in
  2 sentences, \<open>the\<close> with count 3, the highest, and \<open>dog\<close>, \<open>sat\<close>, \<open>ran\<close>, \<open>slept\<close> with count 1
  each. The row of \<open>cat\<close> comes first; the other rows are those of \<open>sat\<close>, \<open>dog\<close>, \<open>ran\<close> and
  \<open>slept\<close> in some order, each with count 1; the stop word \<open>the\<close> has no row.
\<close>

theorem the_cat_example:
  "stdin_data env = ''The cat sat. The cat ran. The dog slept.'' \<and> (\<forall>k. malloc_ok env k) \<and>
   qsort_contract (qsort env)
   \<longrightarrow> (\<exists>st rep others.
          index_stream (malloc_ok env) (stdin_data env) = Inr st \<and>
          main env [prog, ''cat''] = Inr rep \<and>
          total_words st = 9 \<and> total_sentences st = 3 \<and>
          rep_total_words rep = 9 \<and> rep_total_sentences rep = 3 \<and>
          mset (table_entries (hash_table st)) =
            {#\<lparr>word = ''cat'', count_e = 2, sentence_count = 2, last_sentence_id = 1\<rparr>,
              \<lparr>word = ''the'', count_e = 3, sentence_count = 3, last_sentence_id = 2\<rparr>,
              \<lparr>word = ''dog'', count_e = 1, sentence_count = 1, last_sentence_id = 2\<rparr>,
              \<lparr>word = ''sat'', count_e = 1, sentence_count = 1, last_sentence_id = 0\<rparr>,
              \<lparr>word = ''ran'', count_e = 1, sentence_count = 1, last_sentence_id = 1\<rparr>,
              \<lparr>word = ''slept'', count_e = 1, sentence_count = 1, last_sentence_id = 2\<rparr>#} \<and>
          is_stop_word ''the'' \<and>
          rep_rows rep =
            \<lparr>row_word = ''cat'', row_count = 2, row_pct_w = 200 / 9, row_sentence_count = 2,
             row_total_sentences = 3, row_pct_s = 200 / 3\<rparr> # others \<and>
          mset (map row_word others) = {#''sat'', ''dog'', ''ran'', ''slept''#} \<and>
          (\<forall>r\<in>set others. row_count r = 1) \<and>
          ''the'' \<notin> row_word ` set (rep_rows rep))"
proof
  assume a: "stdin_data env = ''The cat sat. The cat ran. The dog slept.'' \<and> (\<forall>k. malloc_ok env k) \<and>
   qsort_contract (qsort env)"
  then have inp: "stdin_data env = ''The cat sat. The cat ran. The dog slept.''"
    and mem: "\<forall>k. malloc_ok env k" and qs: "qsort_contract (qsort env)" by simp_all
  let ?T = "(\<lambda>i. [])
            (190 := [\<lparr>word = ''sat'', count_e = 1, sentence_count = 1, last_sentence_id = 0\<rparr>],
             1495 := [\<lparr>word = ''the'', count_e = 3, sentence_count = 3, last_sentence_id = 2\<rparr>],
             2780 := [\<lparr>word = ''cat'', count_e = 2, sentence_count = 2, last_sentence_id = 1\<rparr>],
             4318 := [\<lparr>word = ''dog'', count_e = 1, sentence_count = 1, last_sentence_id = 2\<rparr>],
             9102 := [\<lparr>word = ''ran'', count_e = 1, sentence_count = 1, last_sentence_id = 1\<rparr>],
             9288 := [\<lparr>word = ''slept'', count_e = 1, sentence_count = 1, last_sentence_id = 2\<rparr>])"
  let ?st = "\<lparr>hash_table = ?T, buf = [], buf_cap = 64, total_words = 9, total_sentences = 3,
              current_sentence_id = 3, nalloc = 13\<rparr>"
  let ?cat = "\<lparr>word = ''cat'', count_e = 2, sentence_count = 2, last_sentence_id = 1\<rparr>"
  let ?sel = "[\<lparr>word = ''sat'', count_e = 1, sentence_count = 1, last_sentence_id = 0\<rparr>,
      \<lparr>word = ''dog'', count_e = 1, sentence_count = 1, last_sentence_id = 2\<rparr>,
      \<lparr>word = ''ran'', count_e = 1, sentence_count = 1, last_sentence_id = 1\<rparr>,
      \<lparr>word = ''slept'', count_e = 1, sentence_count = 1, last_sentence_id = 2\<rparr>]"
  let ?S = "qsort env cmp_wordptr_count (table_entries ?T)"
  let ?top4 = "take 4 (filter (eligible (Some ?cat)) ?S)"
  let ?row = "\<lambda>e. \<lparr>row_word = word e, row_count = count_e e,
              row_pct_w = (if (9::int) > 0 then 100 * real_of_int (count_e e) / real_of_int 9 else 0),
              row_sentence_count = sentence_count e, row_total_sentences = 3,
              row_pct_s = (if (3::int) > 0 then 100 * real_of_int (sentence_count e) / real_of_int 3 else 0)\<rparr>"
  from mem have "malloc_ok env = (\<lambda>k. True)" by (rule all_ok_mem)
  with inp have run: "index_stream (malloc_ok env) (stdin_data env) = Inr ?st"
    by (simp only: the_cat_index)
  have l: "lookup_word ?T (map tolower ''cat'') = Some ?cat"
    by (simp add: lookup_word_def tolower_other hash_values)
  have r: "rank_words env ''cat'' ?st = Inr (Some ?cat, ?top4)"
    using rank_words_ok [OF mem, of "''cat''" ?st] l by simp
  have "mset (filter (eligible (Some ?cat)) ?S) = mset (filter (eligible (Some ?cat)) (table_entries ?T))"
    using qsort_contractD(1) [OF qs, of "table_entries ?T"] by simp
  then have m: "mset (filter (eligible (Some ?cat)) ?S) = mset ?sel"
    by (simp only: the_cat_entries the_cat_eligible)
  then have "length (filter (eligible (Some ?cat)) ?S) = length ?sel" by (rule mset_eq_length)
  then have "?top4 = filter (eligible (Some ?cat)) ?S" by simp
  with m have mt: "mset ?top4 = mset ?sel" by simp
  then have st: "set ?top4 = set ?sel" by (rule mset_eq_setD)
  have open_in: "open_input env [prog, ''cat''] = Inr (stdin_data env)"
    by (simp add: open_input_def)
  have main_eq: "main env [prog, ''cat''] = Inr (print_report ''cat'' ?st (Some ?cat) ?top4)"
    using open_in run r by (simp add: main_def)
  let ?rep = "print_report ''cat'' ?st (Some ?cat) ?top4"
  have rows: "rep_rows ?rep =
      \<lparr>row_word = ''cat'', row_count = 2, row_pct_w = 200 / 9, row_sentence_count = 2,
             row_total_sentences = 3, row_pct_s = 200 / 3\<rparr> # map ?row ?top4"
    unfolding print_report_def rows_of_top4 by (simp add: PRINT_LINE_def)
  have rw: "map row_word (map ?row ?top4) = map word ?top4" by simp
  have "mset (map word ?top4) = image_mset word (mset ?sel)" using mt by (simp only: mset_map)
  then have words: "mset (map row_word (map ?row ?top4)) = {#''sat'', ''dog'', ''ran'', ''slept''#}"
    unfolding rw by simp
  have "\<forall>e\<in>set ?top4. count_e e = 1" unfolding st by simp
  then have ones: "\<forall>r\<in>set (map ?row ?top4). row_count r = 1" by simp
  have "set (map word ?top4) = word ` set ?sel" using st by (simp only: set_map)
  then have sw: "set (map word ?top4) = {''sat'', ''dog'', ''ran'', ''slept''}" by simp
  have "row_word ` set (rep_rows ?rep) = insert ''cat'' (set (map row_word (map ?row ?top4)))"
    unfolding rows by (simp only: list.set image_insert row.simps set_map)
  then have nothe: "''the'' \<notin> row_word ` set (rep_rows ?rep)"
    unfolding rw sw by simp
  have stop: "is_stop_word ''the''" by (simp add: is_stop_word_def STOP_WORDS_def)
  have totals: "rep_total_words ?rep = 9" "rep_total_sentences ?rep = 3"
    by (simp_all add: print_report_def)
  have "table_entries (hash_table ?st) =
            [\<lparr>word = ''sat'', count_e = 1, sentence_count = 1, last_sentence_id = 0\<rparr>,
             \<lparr>word = ''the'', count_e = 3, sentence_count = 3, last_sentence_id = 2\<rparr>,
             \<lparr>word = ''cat'', count_e = 2, sentence_count = 2, last_sentence_id = 1\<rparr>,
             \<lparr>word = ''dog'', count_e = 1, sentence_count = 1, last_sentence_id = 2\<rparr>,
             \<lparr>word = ''ran'', count_e = 1, sentence_count = 1, last_sentence_id = 1\<rparr>,
             \<lparr>word = ''slept'', count_e = 1, sentence_count = 1, last_sentence_id = 2\<rparr>]"
    by (simp only: state.simps the_cat_entries)
  then have ent: "mset (table_entries (hash_table ?st)) =
            {#\<lparr>word = ''cat'', count_e = 2, sentence_count = 2, last_sentence_id = 1\<rparr>,
              \<lparr>word = ''the'', count_e = 3, sentence_count = 3, last_sentence_id = 2\<rparr>,
              \<lparr>word = ''dog'', count_e = 1, sentence_count = 1, last_sentence_id = 2\<rparr>,
              \<lparr>word = ''sat'', count_e = 1, sentence_count = 1, last_sentence_id = 0\<rparr>,
              \<lparr>word = ''ran'', count_e = 1, sentence_count = 1, last_sentence_id = 1\<rparr>,
              \<lparr>word = ''slept'', count_e = 1, sentence_count = 1, last_sentence_id = 2\<rparr>#}"
    by (simp only: mset.simps add_mset_commute)
  have tw: "total_words ?st = 9" "total_sentences ?st = 3" by simp_all
  show "\<exists>st rep others.
          index_stream (malloc_ok env) (stdin_data env) = Inr st \<and>
          main env [prog, ''cat''] = Inr rep \<and>
          total_words st = 9 \<and> total_sentences st = 3 \<and>
          rep_total_words rep = 9 \<and> rep_total_sentences rep = 3 \<and>
          mset (table_entries (hash_table st)) =
            {#\<lparr>word = ''cat'', count_e = 2, sentence_count = 2, last_sentence_id = 1\<rparr>,
              \<lparr>word = ''the'', count_e = 3, sentence_count = 3, last_sentence_id = 2\<rparr>,
              \<lparr>word = ''dog'', count_e = 1, sentence_count = 1, last_sentence_id = 2\<rparr>,
              \<lparr>word = ''sat'', count_e = 1, sentence_count = 1, last_sentence_id = 0\<rparr>,
              \<lparr>word = ''ran'', count_e = 1, sentence_count = 1, last_sentence_id = 1\<rparr>,
              \<lparr>word = ''slept'', count_e = 1, sentence_count = 1, last_sentence_id = 2\<rparr>#} \<and>
          is_stop_word ''the'' \<and>
          rep_rows rep =
            \<lparr>row_word = ''cat'', row_count = 2, row_pct_w = 200 / 9, row_sentence_count = 2,
             row_total_sentences = 3, row_pct_s = 200 / 3\<rparr> # others \<and>
          mset (map row_word others) = {#''sat'', ''dog'', ''ran'', ''slept''#} \<and>
          (\<forall>r\<in>set others. row_count r = 1) \<and>
          ''the'' \<notin> row_word ` set (rep_rows rep)"
    apply (rule exI [of _ ?st])
    apply (rule exI [of _ ?rep])
    apply (rule exI [of _ "map ?row ?top4"])
    apply (intro conjI)
    apply (rule run)
    apply (rule main_eq)
    apply (rule tw(1))
    apply (rule tw(2))
    apply (rule totals(1))
    apply (rule totals(2))
    apply (rule ent)
    apply (rule stop)
    apply (rule rows)
    apply (rule words)
    apply (rule ones)
    apply (rule nothe)
    done
qed

theorem the_cat_example_witness:
  "stdin_data (run_env ''The cat sat. The cat ran. The dog slept.'') =
     ''The cat sat. The cat ran. The dog slept.'' \<and>
   (\<forall>k. malloc_ok (run_env ''The cat sat. The cat ran. The dog slept.'') k) \<and>
   qsort_contract (qsort (run_env ''The cat sat. The cat ran. The dog slept.'')) \<and>
   main (run_env ''The cat sat. The cat ran. The dog slept.'') [''topic_index'', ''cat''] =
     Inr \<lparr>rep_topic = ''cat'', rep_total_words = 9, rep_total_sentences = 3,
          rep_rows =
            [\<lparr>row_word = ''cat'', row_count = 2, row_pct_w = 200 / 9, row_sentence_count = 2,
              row_total_sentences = 3, row_pct_s = 200 / 3\<rparr>,
             \<lparr>row_word = ''sat'', row_count = 1, row_pct_w = 100 / 9, row_sentence_count = 1,
              row_total_sentences = 3, row_pct_s = 100 / 3\<rparr>,
             \<lparr>row_word = ''dog'', row_count = 1, row_pct_w = 100 / 9, row_sentence_count = 1,
              row_total_sentences = 3, row_pct_s = 100 / 3\<rparr>,
             \<lparr>row_word = ''ran'', row_count = 1, row_pct_w = 100 / 9, row_sentence_count = 1,
              row_total_sentences = 3, row_pct_s = 100 / 3\<rparr>,
             \<lparr>row_word = ''slept'', row_count = 1, row_pct_w = 100 / 9, row_sentence_count = 1,
              row_total_sentences = 3, row_pct_s = 100 / 3\<rparr>]\<rparr>"
proof -
  let ?env = "run_env ''The cat sat. The cat ran. The dog slept.''"
  have h: "stdin_data ?env = ''The cat sat. The cat ran. The dog slept.''"
    "\<forall>k. malloc_ok ?env k" "qsort_contract (qsort ?env)"
    by (simp_all add: run_env_def insertion_qsort_contract)
  from the_cat_example [of ?env "''topic_index''"] h
  obtain rep where m: "main ?env [''topic_index'', ''cat''] = Inr rep" "rep_total_words rep = 9"
    by blast
  have "main ?env [''topic_index'', ''cat''] =
     Inr \<lparr>rep_topic = ''cat'', rep_total_words = 9, rep_total_sentences = 3,
          rep_rows =
            [\<lparr>row_word = ''cat'', row_count = 2, row_pct_w = 200 / 9, row_sentence_count = 2,
              row_total_sentences = 3, row_pct_s = 200 / 3\<rparr>,
             \<lparr>row_word = ''sat'', row_count = 1, row_pct_w = 100 / 9, row_sentence_count = 1,
              row_total_sentences = 3, row_pct_s = 100 / 3\<rparr>,
             \<lparr>row_word = ''dog'', row_count = 1, row_pct_w = 100 / 9, row_sentence_count = 1,
              row_total_sentences = 3, row_pct_s = 100 / 3\<rparr>,
             \<lparr>row_word = ''ran'', row_count = 1, row_pct_w = 100 / 9, row_sentence_count = 1,
              row_total_sentences = 3, row_pct_s = 100 / 3\<rparr>,
             \<lparr>row_word = ''slept'', row_count = 1, row_pct_w = 100 / 9, row_sentence_count = 1,
              row_total_sentences = 3, row_pct_s = 100 / 3\<rparr>]\<rparr>"
    by (simp add: main_def run_env_def open_input_def the_cat_index collect_ok the_cat_entries
        eval_rank hash_values Let_def tolower_other)
  with h m show ?thesis by blast
qed

end
